theory Spec2Isabelle
  imports Complex_Main
begin

text \<open>
  A shallow embedding of \<open>content_script.js\<close>, the content script that waits for a
  download control to appear on a page and activates it, backing off while the page is
  busy and reloading a bounded number of times otherwise.

  The functions of the script keep their names. What the script reads from the browser
  is data: a \<open>surface\<close> for the document, a \<open>storage\<close> for \<open>sessionStorage\<close>. What it
  does to the browser is recorded in a trace of actions. Every \<open>try\<close> of the source is
  a case distinction on a result that can be an exception; a browser call that the
  source does not guard either returns an exception, which then ends the running
  callback (the selector queries of tiers 2 and 3 and of the busy check), or cannot
  fail (reading attributes, text and geometry). The bodies of \<open>emulateClick\<close> and of the
  \<open>console\<close> calls are not modelled: \<open>emulateClick\<close> catches every exception of its
  body, and it appears in the trace as one action, as does \<open>location.reload\<close>, whose
  exception the source catches and logs.
\<close>

section \<open>JavaScript values used by content_script.js\<close>

text \<open>
  Strings are lists of 8-bit characters, each read as the UTF-16 code unit of the same
  value (the Latin-1 range). Numbers that the script reads from storage are either
  \<open>NaN\<close> or an integer; the integers agree with IEEE doubles up to \<open>2^53\<close>, which
  covers every value the script itself can write. Exceptions thrown by the browser are
  values of type \<open>exn\<close>.
\<close>

datatype jsnum = NaN | Num int

datatype exn = StorageError | SelectorError | StyleError

definition is_digit :: "char \<Rightarrow> bool" where
  "is_digit c = (48 \<le> (of_char c :: nat) \<and> (of_char c :: nat) \<le> 57)"

definition digit_val :: "char \<Rightarrow> nat" where
  "digit_val c = of_char c - 48"

definition digit_char :: "nat \<Rightarrow> char" where
  "digit_char d = char_of (48 + d)"

text \<open>White space stripped by \<open>parseInt\<close> and \<open>String.prototype.trim\<close>:
  TAB, LF, VT, FF, CR, SP and NBSP.\<close>

definition is_js_space :: "char \<Rightarrow> bool" where
  "is_js_space c = ((of_char c :: nat) \<in> {9, 10, 11, 12, 13, 32, 160})"

definition js_trim :: "string \<Rightarrow> string" where
  "js_trim s = rev (dropWhile is_js_space (rev (dropWhile is_js_space s)))"

text \<open>\<open>parseInt(s, 10)\<close>: skip leading white space, read an optional sign, then the
  longest prefix of decimal digits; no digit gives \<open>NaN\<close>.\<close>

definition parseInt10 :: "string \<Rightarrow> jsnum" where
  "parseInt10 s =
     (let S = dropWhile is_js_space s;
          neg = (case S of [] \<Rightarrow> False | c # _ \<Rightarrow> c = CHR ''-'');
          S' = (case S of [] \<Rightarrow> []
                | c # cs \<Rightarrow> if c = CHR ''+'' \<or> c = CHR ''-'' then cs else S);
          Z = takeWhile is_digit S'
      in if Z = [] then NaN
         else let m = int (foldl (\<lambda>a c. 10 * a + digit_val c) 0 Z)
              in Num (if neg then - m else m))"

fun digits :: "nat \<Rightarrow> string" where
  "digits n = (if n < 10 then [digit_char n] else digits (n div 10) @ [digit_char (n mod 10)])"

declare digits.simps [simp del]

text \<open>\<open>String(v)\<close> for the values above.\<close>

fun js_string :: "jsnum \<Rightarrow> string" where
  "js_string NaN = ''NaN''"
| "js_string (Num n) = (if n < 0 then CHR ''-'' # digits (nat (- n)) else digits (nat n))"

text \<open>\<open>v + 1\<close> and \<open>v >= k\<close> on numbers: \<open>NaN + 1\<close> is \<open>NaN\<close>, and every comparison with
  \<open>NaN\<close> is false.\<close>

fun js_succ :: "jsnum \<Rightarrow> jsnum" where
  "js_succ NaN = NaN"
| "js_succ (Num n) = Num (n + 1)"

fun js_ge :: "jsnum \<Rightarrow> int \<Rightarrow> bool" where
  "js_ge NaN k = False"
| "js_ge (Num n) k = (k \<le> n)"

section \<open>Configuration constants\<close>

definition INITIAL_WAIT_MS :: nat where "INITIAL_WAIT_MS = 7000"
definition POLL_INTERVAL_MS :: nat where "POLL_INTERVAL_MS = 500"
definition OBSERVER_TIMEOUT_MS :: nat where "OBSERVER_TIMEOUT_MS = 30000"
definition MAX_RELOADS :: int where "MAX_RELOADS = 3"
definition BACKOFF_FACTOR :: rat where "BACKOFF_FACTOR = 9 / 5"

definition BUSY_TEXTS :: "string list" where
  "BUSY_TEXTS = [''Encrypting'', ''Encrypting...'', ''Uploading'', ''Uploading...'',
     ''Uploaded'', ''You can close this page now'', ''downloadError'', ''downloadError'']"

section \<open>The attempt ledger: session storage under the key RELOAD_KEY\<close>

text \<open>
  The storage holds at most one string under the script's key. Access to
  \<open>sessionStorage\<close> can throw (storage disabled), and \<open>setItem\<close> can throw on its own
  (quota); both are settings of the browser that the script cannot change.
\<close>

record storage =
  available :: bool
  writable :: bool
  item :: "string option"

definition getItem :: "storage \<Rightarrow> exn + string option" where
  "getItem st = (if available st then Inr (item st) else Inl StorageError)"

definition setItem :: "storage \<Rightarrow> string \<Rightarrow> exn + storage" where
  "setItem st v =
     (if available st \<and> writable st then Inr (st\<lparr>item := Some v\<rparr>) else Inl StorageError)"

text \<open>\<open>try { return parseInt(sessionStorage.getItem(RELOAD_KEY) || '0', 10); }
  catch (e) { return 0; }\<close>: a missing item and the empty string are both falsy.\<close>

definition getReloadCount :: "storage \<Rightarrow> jsnum" where
  "getReloadCount st =
     (case getItem st of
        Inl e \<Rightarrow> Num 0
      | Inr r \<Rightarrow> parseInt10 (case r of None \<Rightarrow> ''0'' | Some s \<Rightarrow> if s = [] then ''0'' else s))"

text \<open>The result is the returned number and the storage afterwards.\<close>

definition incrementReloadCount :: "storage \<Rightarrow> jsnum \<times> storage" where
  "incrementReloadCount st =
     (let v = js_succ (getReloadCount st)
      in case setItem st (js_string v) of
           Inl e \<Rightarrow> (Num 0, st)
         | Inr st' \<Rightarrow> (v, st'))"

section \<open>Text tests: indexOf and the regular expressions\<close>

fun starts_with :: "string \<Rightarrow> string \<Rightarrow> bool" where
  "starts_with s [] = True"
| "starts_with [] (p # ps) = False"
| "starts_with (c # cs) (p # ps) = (c = p \<and> starts_with cs ps)"

text \<open>\<open>s.indexOf(t) !== -1\<close>\<close>

fun str_includes :: "string \<Rightarrow> string \<Rightarrow> bool" where
  "str_includes [] t = starts_with [] t"
| "str_includes (c # cs) t = (starts_with (c # cs) t \<or> str_includes cs t)"

text \<open>The \<open>i\<close> flag on ASCII patterns: letters are compared after folding \<open>A-Z\<close> to
  \<open>a-z\<close>; no other code unit folds to an ASCII letter.\<close>

definition lower :: "char \<Rightarrow> char" where
  "lower c = (let n = (of_char c :: nat) in if 65 \<le> n \<and> n \<le> 90 then char_of (n + 32) else c)"

fun ci_starts_with :: "string \<Rightarrow> string \<Rightarrow> bool" where
  "ci_starts_with s [] = True"
| "ci_starts_with [] (p # ps) = False"
| "ci_starts_with (c # cs) (p # ps) = (lower c = lower p \<and> ci_starts_with cs ps)"

text \<open>\<open>\w\<close> is \<open>[A-Za-z0-9_]\<close>; \<open>\b\<close> holds at position \<open>i\<close> when exactly one of the
  code units before and after it is a word character.\<close>

definition is_word_char :: "char \<Rightarrow> bool" where
  "is_word_char c =
     (let n = (of_char c :: nat)
      in (48 \<le> n \<and> n \<le> 57) \<or> (65 \<le> n \<and> n \<le> 90) \<or> (97 \<le> n \<and> n \<le> 122) \<or> n = 95)"

definition word_at :: "string \<Rightarrow> nat \<Rightarrow> bool" where
  "word_at s j = (j < length s \<and> is_word_char (s ! j))"

definition word_boundary :: "string \<Rightarrow> nat \<Rightarrow> bool" where
  "word_boundary s i = ((0 < i \<and> word_at s (i - 1)) \<noteq> word_at s i)"

text \<open>\<open>/\b(download|download file|download all files|download files|get file)\b/i\<close>\<close>

definition DOWNLOAD_TEXT_RE :: "string \<Rightarrow> bool" where
  "DOWNLOAD_TEXT_RE s =
     list_ex (\<lambda>i. list_ex (\<lambda>p. word_boundary s i \<and> ci_starts_with (drop i s) p
                                 \<and> word_boundary s (i + length p))
                [''download'', ''download file'', ''download all files'', ''download files'',
                 ''get file''])
       [0..<Suc (length s)]"

text \<open>\<open>/\.(zip|pdf|tar|gz|exe|msi|dmg|bin|jpg|jpeg|png|mp4|webm)(\?|$)/i\<close>\<close>

definition HREF_FILE_EXT_RE :: "string \<Rightarrow> bool" where
  "HREF_FILE_EXT_RE s =
     list_ex (\<lambda>i. starts_with (drop i s) ''.'' \<and>
        list_ex (\<lambda>p. ci_starts_with (drop (Suc i) s) p \<and>
                   (case drop (Suc i + length p) s of [] \<Rightarrow> True | c # _ \<Rightarrow> c = CHR ''?''))
          [''zip'', ''pdf'', ''tar'', ''gz'', ''exe'', ''msi'', ''dmg'', ''bin'', ''jpg'', ''jpeg'',
           ''png'', ''mp4'', ''webm''])
       [0..<Suc (length s)]"

text \<open>\<open>/download/i\<close>\<close>

definition DOWNLOAD_RE :: "string \<Rightarrow> bool" where
  "DOWNLOAD_RE s = list_ex (\<lambda>i. ci_starts_with (drop i s) ''download'') [0..<Suc (length s)]"

section \<open>The surface: elements, selectors and queries\<close>

text \<open>
  An element carries what the script reads from it: its tag (lower case), classes,
  attributes, \<open>textContent\<close>, the \<open>disabled\<close> property, the outcome of
  \<open>window.getComputedStyle\<close> (it can throw, or give no style), the number of client
  rectangles, the bounding rectangle, whether \<open>closest('[aria-hidden="true"]')\<close> finds
  an element, and the resolved \<open>href\<close> property. \<open>opacity_zero\<close> stands for
  \<open>parseFloat(style.opacity || '1') === 0\<close>.
\<close>

record cstyle =
  display :: string
  visibility :: string
  opacity_zero :: bool

record element =
  tag :: string
  classes :: "string list"
  attrs :: "(string \<times> string) list"
  textContent :: string
  disabled :: bool
  computed :: "exn + cstyle option"
  client_rects :: nat
  rect_top :: rat
  rect_bottom :: rat
  rect_width :: rat
  rect_height :: rat
  aria_hidden_closest :: bool
  href :: string

definition getAttribute :: "element \<Rightarrow> string \<Rightarrow> string option" where
  "getAttribute el n = map_of (attrs el) n"

definition hasAttribute :: "element \<Rightarrow> string \<Rightarrow> bool" where
  "hasAttribute el n = (map_of (attrs el) n \<noteq> None)"

text \<open>\<open>x || ''\<close> on an attribute value.\<close>

definition or_empty :: "string option \<Rightarrow> string" where
  "or_empty v = (case v of None \<Rightarrow> [] | Some s \<Rightarrow> s)"

text \<open>\<open>a || b\<close> on attribute values: the first that is neither null nor empty.\<close>

definition or_else :: "string option \<Rightarrow> string option \<Rightarrow> string option" where
  "or_else a b = (case a of None \<Rightarrow> b | Some s \<Rightarrow> if s = [] then b else a)"

text \<open>Selectors: a comma-separated list of compound selectors, each an optional tag,
  classes and attribute tests. \<open>AttrEqCI\<close> is the test on the \<open>type\<close> attribute,
  whose value HTML compares without regard to ASCII case.\<close>

datatype attr_test =
    HasAttr string
  | AttrEq string string
  | AttrEqCI string string
  | AttrContains string string

datatype compound = Compound "string option" "string list" "attr_test list"

type_synonym selector = "compound list"

fun attr_holds :: "element \<Rightarrow> attr_test \<Rightarrow> bool" where
  "attr_holds el (HasAttr n) = hasAttribute el n"
| "attr_holds el (AttrEq n v) = (getAttribute el n = Some v)"
| "attr_holds el (AttrEqCI n v) =
     (case getAttribute el n of None \<Rightarrow> False | Some w \<Rightarrow> map lower w = map lower v)"
| "attr_holds el (AttrContains n v) =
     (case getAttribute el n of None \<Rightarrow> False | Some w \<Rightarrow> str_includes w v)"

fun matches_compound :: "element \<Rightarrow> compound \<Rightarrow> bool" where
  "matches_compound el (Compound t cs as) =
     ((case t of None \<Rightarrow> True | Some n \<Rightarrow> tag el = n)
      \<and> list_all (\<lambda>c. c \<in> set (classes el)) cs
      \<and> list_all (attr_holds el) as)"

definition matches :: "selector \<Rightarrow> element \<Rightarrow> bool" where
  "matches sel el = list_ex (matches_compound el) sel"

text \<open>
  A surface snapshot: the elements in document order, \<open>document.body.innerText\<close> (empty
  when there is no body), the viewport height
  (\<open>window.innerHeight || document.documentElement.clientHeight\<close>), the selectors
  that the selector engine rejects by throwing, and whether a mutation observer can be
  attached to the document.
\<close>

record surface =
  elements :: "element list"
  body_text :: string
  viewport_height :: rat
  rejected :: "selector list"
  observable :: bool

definition querySelector :: "surface \<Rightarrow> selector \<Rightarrow> exn + element option" where
  "querySelector surf sel =
     (if sel \<in> set (rejected surf) then Inl SelectorError
      else Inr (find (matches sel) (elements surf)))"

definition querySelectorAll :: "surface \<Rightarrow> selector \<Rightarrow> exn + element list" where
  "querySelectorAll surf sel =
     (if sel \<in> set (rejected surf) then Inl SelectorError
      else Inr (filter (matches sel) (elements surf)))"

text \<open>\<open>'[aria-busy="true"], [data-loading="true"], .loading, .spinner'\<close>\<close>

definition BUSY_SELECTOR :: selector where
  "BUSY_SELECTOR =
     [Compound None [] [AttrEq ''aria-busy'' ''true''],
      Compound None [] [AttrEq ''data-loading'' ''true''],
      Compound None [''loading''] [],
      Compound None [''spinner''] []]"

text \<open>The six specific selectors of tier 1, in the order of the source.\<close>

definition specificSelectors :: "selector list" where
  "specificSelectors =
     [[Compound (Some ''button'') [''chakra-button''] []],
      [Compound (Some ''a'') [''chakra-link'', ''chakra-button''] []],
      [Compound (Some ''a'') [] [AttrContains ''href'' ''download'']],
      [Compound (Some ''a'') [] [HasAttr ''download'']],
      [Compound (Some ''button'') [] [AttrContains ''aria-label'' ''Download'']],
      [Compound (Some ''button'') [] [AttrContains ''title'' ''Download'']]]"

text \<open>\<open>'a, button, input[type="button"], input[type="submit"], [role="button"]'\<close>\<close>

definition CLICKABLE_SELECTOR :: selector where
  "CLICKABLE_SELECTOR =
     [Compound (Some ''a'') [] [],
      Compound (Some ''button'') [] [],
      Compound (Some ''input'') [] [AttrEqCI ''type'' ''button''],
      Compound (Some ''input'') [] [AttrEqCI ''type'' ''submit''],
      Compound None [] [AttrEq ''role'' ''button'']]"

definition DOWNLOAD_ATTR_SELECTOR :: selector where
  "DOWNLOAD_ATTR_SELECTOR = [Compound None [] [HasAttr ''download'']]"

definition A_HREF_SELECTOR :: selector where
  "A_HREF_SELECTOR = [Compound (Some ''a'') [] [HasAttr ''href'']]"

section \<open>Busy detection\<close>

definition isBusyUiPresent :: "surface \<Rightarrow> exn + bool" where
  "isBusyUiPresent surf =
     (if list_ex (str_includes (body_text surf)) BUSY_TEXTS then Inr True
      else case querySelector surf BUSY_SELECTOR of
             Inl e \<Rightarrow> Inl e
           | Inr busyEl \<Rightarrow> Inr (busyEl \<noteq> None))"

section \<open>Target location\<close>

text \<open>The first argument is the viewport height of the surface the element is in. A
  throwing \<open>getComputedStyle\<close> is caught and ignored: the checks after it still run.\<close>

definition isVisibleAndInteractable :: "rat \<Rightarrow> element \<Rightarrow> bool" where
  "isVisibleAndInteractable vh el =
     (if disabled el then False
      else if (case computed el of
                 Inl e \<Rightarrow> False
               | Inr None \<Rightarrow> False
               | Inr (Some style) \<Rightarrow>
                   display style = ''none'' \<or> visibility style = ''hidden'' \<or> opacity_zero style)
           then False
      else if client_rects el = 0 then False
      else if rect_width el = 0 \<or> rect_height el = 0 then False
      else if \<not> (rect_bottom el \<ge> 0 \<and> rect_top el \<le> vh) then False
      else if aria_hidden_closest el then False
      else True)"

definition looksLikeDownload :: "element \<Rightarrow> bool" where
  "looksLikeDownload el =
     (let text = js_trim (textContent el @ '' '' @ or_empty (getAttribute el ''aria-label'')
                           @ '' '' @ or_empty (getAttribute el ''title''))
      in if DOWNLOAD_TEXT_RE text then True
         else if (case getAttribute el ''href'' of None \<Rightarrow> False
                  | Some h \<Rightarrow> h \<noteq> [] \<and> HREF_FILE_EXT_RE h) then True
         else if hasAttribute el ''download'' then True
         else (case or_else (getAttribute el ''data-testid'')
                        (or_else (getAttribute el ''data-test'') (getAttribute el ''data-download'')) of
                 None \<Rightarrow> False
               | Some aria \<Rightarrow> aria \<noteq> [] \<and> DOWNLOAD_RE aria))"

text \<open>Tier 1: the loop over the specific selectors. An exception inside the loop body
  is caught and the loop goes on with the next selector.\<close>

fun try_specific :: "surface \<Rightarrow> selector list \<Rightarrow> element option" where
  "try_specific surf [] = None"
| "try_specific surf (s # ss) =
     (case querySelector surf s of
        Inl e \<Rightarrow> try_specific surf ss
      | Inr None \<Rightarrow> try_specific surf ss
      | Inr (Some node) \<Rightarrow>
          if isVisibleAndInteractable (viewport_height surf) node \<and> looksLikeDownload node
          then Some node
          else try_specific surf ss)"

text \<open>The locator over a list of specific selectors; tiers 2 and 3 are not guarded, so
  an exception of their queries leaves the function.\<close>

definition locate :: "selector list \<Rightarrow> surface \<Rightarrow> exn + element option" where
  "locate sels surf =
     (case try_specific surf sels of
        Some node \<Rightarrow> Inr (Some node)
      | None \<Rightarrow>
         (case querySelectorAll surf CLICKABLE_SELECTOR of
            Inl e \<Rightarrow> Inl e
          | Inr candidates \<Rightarrow>
             (case find (\<lambda>c. looksLikeDownload c
                             \<and> isVisibleAndInteractable (viewport_height surf) c) candidates of
                Some c \<Rightarrow> Inr (Some c)
              | None \<Rightarrow>
                 (case querySelector surf DOWNLOAD_ATTR_SELECTOR of
                    Inl e \<Rightarrow> Inl e
                  | Inr downloadAttr \<Rightarrow>
                     if (case downloadAttr of None \<Rightarrow> False
                         | Some d \<Rightarrow> isVisibleAndInteractable (viewport_height surf) d)
                     then Inr downloadAttr
                     else (case querySelectorAll surf A_HREF_SELECTOR of
                             Inl e \<Rightarrow> Inl e
                           | Inr links \<Rightarrow>
                               Inr (find (\<lambda>a. HREF_FILE_EXT_RE (href a)
                                    \<and> isVisibleAndInteractable (viewport_height surf) a) links))))))"

definition findDownloadControl :: "surface \<Rightarrow> exn + element option" where
  "findDownloadControl surf = locate specificSelectors surf"

section \<open>The retry state machine\<close>

text \<open>
  The busy backoff: \<open>Math.max(2000, Math.floor(INITIAL_WAIT_MS * Math.pow(BACKOFF_FACTOR, reloads)))\<close>.
  The source computes it in doubles, and \<open>Math.pow\<close> is rounded as the engine
  chooses. Up to the ledger value 41 the double result is the floor of the exact product
  \<open>7000 * (9/5)^reloads\<close>, which is what the model computes there (for negative values as
  well). From 42 on the last digits of the double, and from about 1200 on whether it is
  \<open>Infinity\<close>, depend on the rounding of the power: the model does not say what the
  delay is (\<open>EngineDependent\<close>). \<open>Math.max\<close> of a number and \<open>NaN\<close> is \<open>NaN\<close>.

  \<open>setTimeout\<close> converts its delay to a signed 32-bit integer, wrapping around
  (\<open>NaN\<close> becomes 0), and replaces a negative one by 0. A timer armed with a delay that
  the model does not determine is due at once in the model; as a timer can fire late,
  this leaves open when it fires.
\<close>

datatype jsdelay = Delay jsnum | EngineDependent

definition extraWait :: "jsnum \<Rightarrow> jsdelay" where
  "extraWait reloads =
     (case reloads of
        NaN \<Rightarrow> Delay NaN
      | Num n \<Rightarrow>
          if n \<le> 41
          then Delay (Num (max 2000 \<lfloor>of_nat INITIAL_WAIT_MS * BACKOFF_FACTOR powi n\<rfloor>))
          else EngineDependent)"

definition timer_delay :: "jsdelay \<Rightarrow> nat" where
  "timer_delay v =
     (case v of
        EngineDependent \<Rightarrow> 0
      | Delay NaN \<Rightarrow> 0
      | Delay (Num d) \<Rightarrow> let m = d mod 2 ^ 32 in nat (if 2 ^ 31 \<le> m then m - 2 ^ 32 else m))"

text \<open>
  What the script does to the world, in order: calls of \<open>emulateClick\<close> (with the
  place of the call), of \<open>incrementReloadCount\<close> (with the value it returned), of
  \<open>location.reload\<close>, the scheduling of a backoff re-entry (with the delay), and the
  give-up warning (with the count read). The number is the machine instance.
\<close>

datatype origin = AtStart | ByObserver nat | ByPoll nat

datatype action =
    Activate origin element
  | Increment nat jsnum
  | Reload nat
  | Backoff nat jsdelay
  | GiveUp nat jsnum

text \<open>One machine instance is the closure of one call of \<open>startAutoDl\<close> that went
  past the quick check: the latch \<open>resolved\<close>, whether its observer is connected,
  whether its interval timer is set (and when it is next due), and \<open>elapsed\<close>.\<close>

record inst =
  resolved :: bool
  observing :: bool
  timer_on :: bool
  next_tick :: nat
  elapsed :: nat

datatype callback = StartAutoDl | Watchdog nat

record timeout =
  due :: nat
  callback :: callback
  pending :: bool

text \<open>The page: the clock, the current document, the instances and one-shot timers
  created so far, the session storage, and the actions taken so far.\<close>

record page =
  now :: nat
  doc :: surface
  insts :: "inst list"
  timeouts :: "timeout list"
  store :: storage
  trace :: "action list"

text \<open>An exception that no \<open>try\<close> catches ends the running callback where it is.\<close>

definition startAutoDl :: "page \<Rightarrow> page" where
  "startAutoDl p =
     (case findDownloadControl (doc p) of
        Inl e \<Rightarrow> p
      | Inr (Some immediate) \<Rightarrow> p\<lparr>trace := trace p @ [Activate AtStart immediate]\<rparr>
      | Inr None \<Rightarrow>
         (case isBusyUiPresent (doc p) of
            Inl e \<Rightarrow> p
          | Inr busy \<Rightarrow>
              p\<lparr>insts := insts p @
                   [\<lparr>resolved = False, observing = observable (doc p), timer_on = True,
                     next_tick = now p + POLL_INTERVAL_MS, elapsed = 0\<rparr>],
                timeouts := timeouts p @
                   [\<lparr>due = now p + OBSERVER_TIMEOUT_MS,
                     callback = Watchdog (length (insts p)), pending = True\<rparr>]\<rparr>))"

definition observer_callback :: "nat \<Rightarrow> page \<Rightarrow> page" where
  "observer_callback i p =
     (let s = insts p ! i
      in if resolved s then p
         else case findDownloadControl (doc p) of
                Inl e \<Rightarrow> p
              | Inr None \<Rightarrow> p
              | Inr (Some found) \<Rightarrow>
                  p\<lparr>insts := (insts p)[i := s\<lparr>resolved := True, observing := False\<rparr>],
                    trace := trace p @ [Activate (ByObserver i) found]\<rparr>)"

definition timer_callback :: "nat \<Rightarrow> page \<Rightarrow> page" where
  "timer_callback i p =
     (let s = insts p ! i
      in if resolved s then p\<lparr>insts := (insts p)[i := s\<lparr>timer_on := False\<rparr>]\<rparr>
         else case findDownloadControl (doc p) of
                Inl e \<Rightarrow> p
              | Inr (Some found) \<Rightarrow>
                  p\<lparr>insts := (insts p)[i := s\<lparr>resolved := True, timer_on := False,
                                               observing := False\<rparr>],
                    trace := trace p @ [Activate (ByPoll i) found]\<rparr>
              | Inr None \<Rightarrow>
                 (let s1 = s\<lparr>elapsed := elapsed s + POLL_INTERVAL_MS\<rparr>
                  in if elapsed s1 \<ge> INITIAL_WAIT_MS
                     then
                       (let p1 = p\<lparr>insts := (insts p)[i := s1\<lparr>timer_on := False,
                                                                 observing := False\<rparr>]\<rparr>
                        in case isBusyUiPresent (doc p) of
                             Inl e \<Rightarrow> p1
                           | Inr True \<Rightarrow>
                              (let reloads = getReloadCount (store p)
                               in p1\<lparr>timeouts := timeouts p @
                                        [\<lparr>due = now p + timer_delay (extraWait reloads),
                                          callback = StartAutoDl, pending = True\<rparr>],
                                      trace := trace p @ [Backoff i (extraWait reloads)]\<rparr>)
                           | Inr False \<Rightarrow>
                              (let reloads = getReloadCount (store p)
                               in if js_ge reloads MAX_RELOADS
                                  then p1\<lparr>trace := trace p @ [GiveUp i reloads]\<rparr>
                                  else (case incrementReloadCount (store p) of
                                          (newCount, st) \<Rightarrow>
                                            p1\<lparr>store := st,
                                               trace := trace p @ [Increment i newCount,
                                                                   Reload i]\<rparr>)))
                     else p\<lparr>insts := (insts p)[i := s1]\<rparr>))"

text \<open>The watchdog of instance \<open>i\<close>. A watchdog is created together with its
  instance, so the bound on \<open>i\<close> always holds; it only makes the function total.\<close>

definition watchdog_callback :: "nat \<Rightarrow> page \<Rightarrow> page" where
  "watchdog_callback i p =
     (if i < length (insts p) \<and> \<not> resolved (insts p ! i)
      then p\<lparr>insts := (insts p)[i := (insts p ! i)\<lparr>observing := False, timer_on := False\<rparr>]\<rparr>
      else p)"

text \<open>
  What happens to a page, as chosen by the browser and the page's own application:
  \<^item> \<open>Load s\<close>: a (re)load completes with document \<open>s\<close>; the old context and its timers
    and observers are gone, and the script schedules \<open>startAutoDl\<close> 150 ms later;
  \<^item> \<open>Change s notify\<close>: the document becomes \<open>s\<close>; if the change is one that mutation
    observers see (child list or attributes), every connected observer is called;
  \<^item> \<open>Timeout k\<close>: the one-shot timer \<open>k\<close> fires, if it is pending and due;
  \<^item> \<open>Interval i\<close>: the interval timer of instance \<open>i\<close> ticks, if it is set and due.
  An event is a happening with the time at which it happens; a timer never fires
  before it is due, but it can be late.
\<close>

datatype happening = Load surface | Change surface bool | Timeout nat | Interval nat

type_synonym event = "nat \<times> happening"

fun happen :: "happening \<Rightarrow> page \<Rightarrow> page" where
  "happen (Load s) p =
     p\<lparr>doc := s,
       insts := map (\<lambda>x. x\<lparr>observing := False, timer_on := False\<rparr>) (insts p),
       timeouts := map (\<lambda>x. x\<lparr>pending := False\<rparr>) (timeouts p) @
                   [\<lparr>due = now p + 150, callback = StartAutoDl, pending = True\<rparr>]\<rparr>"
| "happen (Change s notify) p =
     (if notify
      then fold (\<lambda>i q. if observing (insts q ! i) then observer_callback i q else q)
             [0..<length (insts p)] (p\<lparr>doc := s\<rparr>)
      else p\<lparr>doc := s\<rparr>)"
| "happen (Timeout k) p =
     (if k < length (timeouts p) \<and> pending (timeouts p ! k) \<and> due (timeouts p ! k) \<le> now p
      then (let p1 = p\<lparr>timeouts := (timeouts p)[k := (timeouts p ! k)\<lparr>pending := False\<rparr>]\<rparr>
            in case callback (timeouts p ! k) of
                 StartAutoDl \<Rightarrow> startAutoDl p1
               | Watchdog i \<Rightarrow> watchdog_callback i p1)
      else p)"
| "happen (Interval i) p =
     (if i < length (insts p) \<and> timer_on (insts p ! i) \<and> next_tick (insts p ! i) \<le> now p
      then timer_callback i
             (p\<lparr>insts := (insts p)[i := (insts p ! i)\<lparr>next_tick := now p + POLL_INTERVAL_MS\<rparr>]\<rparr>)
      else p)"

definition step :: "event \<Rightarrow> page \<Rightarrow> page" where
  "step ev p = (case ev of (t, h) \<Rightarrow> if t < now p then p else happen h (p\<lparr>now := t\<rparr>))"

definition run :: "event list \<Rightarrow> page \<Rightarrow> page" where
  "run evs p = fold step evs p"

text \<open>A session starts with no document loaded and nothing done.\<close>

definition fresh :: "storage \<Rightarrow> page" where
  "fresh st =
     \<lparr>now = 0,
      doc = \<lparr>elements = [], body_text = [], viewport_height = 0, rejected = [], observable = True\<rparr>,
      insts = [], timeouts = [], store = st, trace = []\<rparr>"

section \<open>Notions used in the statements\<close>


text \<open>
  The locator as claim C10 describes it, written without exceptions. A specific
  selector contributes its first match when it does not throw and that match passes the
  three checks; a throwing selector contributes nothing. The specific selectors are
  tried in order and the first contribution is the result; when there is none, the
  lower tiers decide: the first clickable element that passes the heuristic and the
  visibility check, else the first element with a \<open>download\<close> attribute if it is
  visible, else the first visible link whose target has a file extension.
\<close>

definition specific_hit :: "surface \<Rightarrow> selector \<Rightarrow> element option" where
  "specific_hit surf s =
     (if s \<in> set (rejected surf) then None
      else case find (matches s) (elements surf) of
             None \<Rightarrow> None
           | Some node \<Rightarrow>
               if isVisibleAndInteractable (viewport_height surf) node \<and> looksLikeDownload node
               then Some node else None)"

fun first_some :: "'a option list \<Rightarrow> 'a option" where
  "first_some [] = None"
| "first_some (None # rs) = first_some rs"
| "first_some (Some x # rs) = Some x"

definition lower_tiers :: "surface \<Rightarrow> element option" where
  "lower_tiers surf =
     (let visible = isVisibleAndInteractable (viewport_height surf);
          file_link = find (\<lambda>a. HREF_FILE_EXT_RE (href a) \<and> visible a)
                        (filter (matches A_HREF_SELECTOR) (elements surf))
      in case find (\<lambda>c. looksLikeDownload c \<and> visible c)
                (filter (matches CLICKABLE_SELECTOR) (elements surf)) of
           Some c \<Rightarrow> Some c
         | None \<Rightarrow>
            (case find (matches DOWNLOAD_ATTR_SELECTOR) (elements surf) of
               None \<Rightarrow> file_link
             | Some d \<Rightarrow> if visible d then Some d else file_link))"

definition locate_as_claimed :: "surface \<Rightarrow> element option" where
  "locate_as_claimed surf =
     (case first_some (map (specific_hit surf) specificSelectors) of
        Some node \<Rightarrow> Some node
      | None \<Rightarrow> lower_tiers surf)"

text \<open>The actions that a step or a run added to the trace, the instance an action
  belongs to (the quick check of \<open>startAutoDl\<close> belongs to none), and the actions of
  one instance.\<close>

definition new_actions :: "page \<Rightarrow> page \<Rightarrow> action list" where
  "new_actions p p' = drop (length (trace p)) (trace p')"

fun action_inst :: "action \<Rightarrow> nat option" where
  "action_inst (Activate AtStart el) = None"
| "action_inst (Activate (ByObserver i) el) = Some i"
| "action_inst (Activate (ByPoll i) el) = Some i"
| "action_inst (Increment i v) = Some i"
| "action_inst (Reload i) = Some i"
| "action_inst (Backoff i d) = Some i"
| "action_inst (GiveUp i v) = Some i"

definition acts_of :: "nat \<Rightarrow> action list \<Rightarrow> action list" where
  "acts_of i as = filter (\<lambda>a. action_inst a = Some i) as"

text \<open>An action without the instance that took it.\<close>

datatype shape = Activated | Incremented jsnum | Reloaded | BackedOff jsdelay | GaveUp jsnum

fun shape_of :: "action \<Rightarrow> shape" where
  "shape_of (Activate org el) = Activated"
| "shape_of (Increment i v) = Incremented v"
| "shape_of (Reload i) = Reloaded"
| "shape_of (Backoff i d) = BackedOff d"
| "shape_of (GiveUp i v) = GaveUp v"

text \<open>The value that the ledger reads.\<close>

definition ledger :: "page \<Rightarrow> jsnum" where
  "ledger p = getReloadCount (store p)"

text \<open>A quiet surface has no qualifying control and does not indicate busy; a quiet
  event brings no other surface.\<close>

definition quiet :: "surface \<Rightarrow> bool" where
  "quiet surf = (findDownloadControl surf = Inr None \<and> isBusyUiPresent surf = Inr False)"

fun quiet_event :: "event \<Rightarrow> bool" where
  "quiet_event (t, Load s) = quiet s"
| "quiet_event (t, Change s notify) = quiet s"
| "quiet_event (t, Timeout k) = True"
| "quiet_event (t, Interval i) = True"

text \<open>The watch window of instance \<open>i\<close> expires in the event: its interval timer
  ticks, the latch is unset, and \<open>elapsed\<close> reaches \<open>INITIAL_WAIT_MS\<close> with this tick.\<close>

fun expires :: "page \<Rightarrow> event \<Rightarrow> bool" where
  "expires p (t, Interval i) =
     (now p \<le> t \<and> i < length (insts p) \<and> timer_on (insts p ! i) \<and> next_tick (insts p ! i) \<le> t
      \<and> \<not> resolved (insts p ! i)
      \<and> INITIAL_WAIT_MS \<le> elapsed (insts p ! i) + POLL_INTERVAL_MS)"
| "expires p (t, h) = False"

fun expiries :: "page \<Rightarrow> event list \<Rightarrow> nat" where
  "expiries p [] = 0"
| "expiries p (ev # evs) = (if expires p ev then 1 else 0) + expiries (step ev p) evs"

text \<open>The trace of \<open>r\<close> reloads from the ledger value \<open>n\<close>: each is one increment,
  returning the next value, and then the reload.\<close>

fun reload_shapes :: "int \<Rightarrow> nat \<Rightarrow> shape list" where
  "reload_shapes n 0 = []"
| "reload_shapes n (Suc r) = Incremented (Num (n + 1)) # Reloaded # reload_shapes (n + 1) r"

text \<open>What the observer callbacks of one change of the document can do between them:
  nothing but activations.\<close>

definition observed :: "page \<Rightarrow> page \<Rightarrow> bool" where
  "observed a b =
     (now b = now a \<and> doc b = doc a \<and> store b = store a \<and> timeouts b = timeouts a
      \<and> length (insts b) = length (insts a)
      \<and> (\<exists>new. trace b = trace a @ new \<and> (\<forall>x\<in>set new. shape_of x = Activated)))"

text \<open>The trace only grows.\<close>

definition extends :: "page \<Rightarrow> page \<Rightarrow> bool" where
  "extends a b = (\<exists>new. trace b = trace a @ new)"

text \<open>From a page where the ledger reads a non-negative integer, the ledger reads no
  less afterwards, and no more than the larger of that integer and the ceiling.\<close>

definition ledger_grows :: "page \<Rightarrow> page \<Rightarrow> bool" where
  "ledger_grows a b =
     (\<forall>n. ledger a = Num n \<and> 0 \<le> n \<longrightarrow>
          (\<exists>m. ledger b = Num m \<and> n \<le> m \<and> m \<le> max n MAX_RELOADS))"

text \<open>From a page where the latch of instance \<open>i\<close> is set: the latch stays set, its
  timer and observer are not started again, and the instance takes no action.\<close>

definition latched :: "nat \<Rightarrow> page \<Rightarrow> page \<Rightarrow> bool" where
  "latched i a b =
     (i < length (insts a) \<and> resolved (insts a ! i) \<longrightarrow>
        i < length (insts b) \<and> resolved (insts b ! i)
        \<and> (timer_on (insts b ! i) \<longrightarrow> timer_on (insts a ! i))
        \<and> (observing (insts b ! i) \<longrightarrow> observing (insts a ! i))
        \<and> (\<exists>new. trace b = trace a @ new \<and> acts_of i new = []))"

text \<open>What the observer callbacks of one change of the document do to instance \<open>i\<close>:
  nothing, or they set its latch, disconnect its observer and activate once.\<close>

definition resolving :: "nat \<Rightarrow> page \<Rightarrow> page \<Rightarrow> bool" where
  "resolving i a b =
     (i < length (insts a) \<longrightarrow>
        i < length (insts b) \<and> timeouts b = timeouts a
        \<and> (\<exists>new. trace b = trace a @ new
              \<and> (insts b ! i = insts a ! i \<and> acts_of i new = []
                  \<or> \<not> resolved (insts a ! i)
                    \<and> insts b ! i = (insts a ! i)\<lparr>resolved := True, observing := False\<rparr>
                    \<and> (\<exists>el. acts_of i new = [Activate (ByObserver i) el]))))"

text \<open>From a page where instance \<open>i\<close> has neither timer nor observer: it has neither
  afterwards, its latch is as it was, and the instance takes no action.\<close>

definition stopped :: "nat \<Rightarrow> page \<Rightarrow> page \<Rightarrow> bool" where
  "stopped i a b =
     (i < length (insts a) \<and> \<not> timer_on (insts a ! i) \<and> \<not> observing (insts a ! i) \<longrightarrow>
        i < length (insts b) \<and> \<not> timer_on (insts b ! i) \<and> \<not> observing (insts b ! i)
        \<and> resolved (insts b ! i) = resolved (insts a ! i)
        \<and> (\<exists>new. trace b = trace a @ new \<and> acts_of i new = []))"

text \<open>The one-shot timers other than the re-entries are the watchdogs of the
  instances, one for each, in the order of creation.\<close>

definition one_watchdog_each :: "page \<Rightarrow> bool" where
  "one_watchdog_each p =
     (filter (\<lambda>c. c \<noteq> StartAutoDl) (map callback (timeouts p))
        = map Watchdog [0..<length (insts p)])"

definition keeps_watchdogs :: "page \<Rightarrow> page \<Rightarrow> bool" where
  "keeps_watchdogs a b = (one_watchdog_each a \<longrightarrow> one_watchdog_each b)"

section \<open>Example elements, documents and storages\<close>

definition base_el :: element where
  "base_el =
     \<lparr>tag = ''div'', classes = [], attrs = [], textContent = [], disabled = False,
      computed = Inr (Some \<lparr>display = ''block'', visibility = ''visible'', opacity_zero = False\<rparr>),
      client_rects = 1, rect_top = 10, rect_bottom = 50, rect_width = 120, rect_height = 40,
      aria_hidden_closest = False, href = []\<rparr>"


definition plain_link :: element where
  "plain_link =
     base_el\<lparr>tag := ''a'', attrs := [(''href'', ''/f/1'')], textContent := ''Download'',
             href := ''https://example.org/f/1''\<rparr>"

definition download_button :: element where
  "download_button =
     base_el\<lparr>tag := ''button'', classes := [''chakra-button''], textContent := ''Download''\<rparr>"

definition unstyled_button :: element where
  "unstyled_button = download_button\<lparr>computed := Inl StyleError\<rparr>"

definition empty_doc :: surface where
  "empty_doc =
     \<lparr>elements = [], body_text = [], viewport_height = 800, rejected = [], observable = True\<rparr>"


definition broken_engine_doc :: surface where
  "broken_engine_doc =
     empty_doc\<lparr>elements := [download_button, plain_link], body_text := ''Download Download'',
               rejected := [specificSelectors ! 0]\<rparr>"

definition download_anchor :: element where
  "download_anchor =
     base_el\<lparr>tag := ''a'', attrs := [(''download'', []), (''href'', ''/f/2'')],
             textContent := ''Save a copy'', href := ''https://example.org/f/2''\<rparr>"

text \<open>A document in which the first and the third specific selector throw, the fourth
  (\<open>a[download]\<close>) hits the second element, and the tier-2 scan would take the first.\<close>

definition later_hit_doc :: surface where
  "later_hit_doc =
     empty_doc\<lparr>elements := [plain_link, download_anchor], body_text := ''Download Save a copy'',
               rejected := [specificSelectors ! 0, specificSelectors ! 2]\<rparr>"

definition ready_doc :: surface where
  "ready_doc = empty_doc\<lparr>elements := [download_button], body_text := ''Download''\<rparr>"

definition busy_doc :: surface where
  "busy_doc = empty_doc\<lparr>body_text := ''Uploading... 40%''\<rparr>"

definition empty_storage :: storage where
  "empty_storage = \<lparr>available = True, writable = True, item = None\<rparr>"

definition no_storage :: storage where
  "no_storage = \<lparr>available = False, writable = False, item = None\<rparr>"


definition garbage_storage :: storage where
  "garbage_storage = \<lparr>available = True, writable = True, item = Some ''abc''\<rparr>"

section \<open>Example runs\<close>

text \<open>A page loads at time 0, \<open>startAutoDl\<close> runs at 150 ms, and the interval timer
  ticks thirteen times, every 500 ms: one tick before the watch window expires.\<close>

definition watch_run :: "surface \<Rightarrow> event list" where
  "watch_run s =
     [(0, Load s), (150, Timeout 0), (650, Interval 0), (1150, Interval 0),
      (1650, Interval 0), (2150, Interval 0), (2650, Interval 0), (3150, Interval 0),
      (3650, Interval 0), (4150, Interval 0), (4650, Interval 0), (5150, Interval 0),
      (5650, Interval 0), (6150, Interval 0), (6650, Interval 0)]"

text \<open>The same start, three ticks, and then either the control appears with a change
  that observers see (at 1700 ms), or it appears unseen and the next tick finds it.\<close>

definition short_watch :: "event list" where
  "short_watch =
     [(0, Load empty_doc), (150, Timeout 0), (650, Interval 0), (1150, Interval 0),
      (1650, Interval 0)]"

definition seen_by_observer :: page where
  "seen_by_observer = run (short_watch @ [(1700, Change ready_doc True)]) (fresh empty_storage)"

definition seen_by_poll :: page where
  "seen_by_poll =
     run (short_watch @ [(1700, Change ready_doc False), (2150, Interval 0)])
       (fresh empty_storage)"

text \<open>
  A page that indicates busy for half a minute, every timer firing when it is due. The
  first instance starts at 150 ms and its window expires at 7150 ms; the backoff of
  7000 ms starts the second instance at 14150 ms, whose window expires at 21150 ms; the
  third instance starts at 28150 ms; the watchdog of the first instance fires at
  30150 ms.
\<close>

definition busy_run :: "event list" where
  "busy_run =
     [(0, Load busy_doc), (150, Timeout 0), (650, Interval 0), (1150, Interval 0),
      (1650, Interval 0), (2150, Interval 0), (2650, Interval 0), (3150, Interval 0),
      (3650, Interval 0), (4150, Interval 0), (4650, Interval 0), (5150, Interval 0),
      (5650, Interval 0), (6150, Interval 0), (6650, Interval 0), (7150, Interval 0),
      (14150, Timeout 2), (14650, Interval 1), (15150, Interval 1), (15650, Interval 1),
      (16150, Interval 1), (16650, Interval 1), (17150, Interval 1), (17650, Interval 1),
      (18150, Interval 1), (18650, Interval 1), (19150, Interval 1), (19650, Interval 1),
      (20150, Interval 1), (20650, Interval 1), (21150, Interval 1), (28150, Timeout 4),
      (28650, Interval 2), (29150, Interval 2), (29650, Interval 2), (30150, Timeout 1)]"

definition busy_page :: page where
  "busy_page = run busy_run (fresh empty_storage)"

text \<open>The watch window of the first instance expires with the fourteenth tick.\<close>

definition expiry_run :: "surface \<Rightarrow> event list" where
  "expiry_run s = watch_run s @ [(7150, Interval 0)]"


text \<open>Four page loads, 8 seconds apart, on a quiet document; each instance ticks
  fourteen times.\<close>

definition quiet_session :: "event list" where
  "quiet_session =
     [(0, Load empty_doc), (150, Timeout 0), (650, Interval 0), (1150, Interval 0),
      (1650, Interval 0), (2150, Interval 0), (2650, Interval 0), (3150, Interval 0),
      (3650, Interval 0), (4150, Interval 0), (4650, Interval 0), (5150, Interval 0),
      (5650, Interval 0), (6150, Interval 0), (6650, Interval 0), (7150, Interval 0),
      (8000, Load empty_doc), (8150, Timeout 2), (8650, Interval 1), (9150, Interval 1),
      (9650, Interval 1), (10150, Interval 1), (10650, Interval 1), (11150, Interval 1),
      (11650, Interval 1), (12150, Interval 1), (12650, Interval 1), (13150, Interval 1),
      (13650, Interval 1), (14150, Interval 1), (14650, Interval 1), (15150, Interval 1),
      (16000, Load empty_doc), (16150, Timeout 4), (16650, Interval 2), (17150, Interval 2),
      (17650, Interval 2), (18150, Interval 2), (18650, Interval 2), (19150, Interval 2),
      (19650, Interval 2), (20150, Interval 2), (20650, Interval 2), (21150, Interval 2),
      (21650, Interval 2), (22150, Interval 2), (22650, Interval 2), (23150, Interval 2),
      (24000, Load empty_doc), (24150, Timeout 6), (24650, Interval 3), (25150, Interval 3),
      (25650, Interval 3), (26150, Interval 3), (26650, Interval 3), (27150, Interval 3),
      (27650, Interval 3), (28150, Interval 3), (28650, Interval 3), (29150, Interval 3),
      (29650, Interval 3), (30150, Interval 3), (30650, Interval 3), (31150, Interval 3)]"

section \<open>The locator\<close>





lemma lower_tiers_not_specific:
  "CLICKABLE_SELECTOR \<notin> set specificSelectors"
  "DOWNLOAD_ATTR_SELECTOR \<notin> set specificSelectors"
  "A_HREF_SELECTOR \<notin> set specificSelectors"
  by (simp_all add: CLICKABLE_SELECTOR_def DOWNLOAD_ATTR_SELECTOR_def A_HREF_SELECTOR_def
        specificSelectors_def)

lemma try_specific_first_some:
  "try_specific surf sels = first_some (map (specific_hit surf) sels)"
  by (induction sels)
     (auto simp add: specific_hit_def querySelector_def split: option.splits)

lemma locate_specific_hit:
  "try_specific surf sels = Some node \<Longrightarrow> locate sels surf = Inr (Some node)"
  by (simp add: locate_def)

lemma locate_lower_tiers:
  assumes "try_specific surf sels = None"
    "CLICKABLE_SELECTOR \<notin> set (rejected surf)" "DOWNLOAD_ATTR_SELECTOR \<notin> set (rejected surf)"
    "A_HREF_SELECTOR \<notin> set (rejected surf)"
  shows "locate sels surf = Inr (lower_tiers surf)"
  using assms
  by (auto simp add: locate_def lower_tiers_def querySelector_def querySelectorAll_def Let_def
        split: option.splits)

text \<open>
  Claim C10. A specific selector whose evaluation throws is passed over, and the loop
  goes on with the remaining specific selectors: whenever one of them that does not
  throw has a first match passing the three checks, the locator returns the first match
  of the earliest such selector, whichever selectors throw before or after it. When
  none of them does, the lower tiers decide. So with any set of the specific selectors
  throwing, the locator returns exactly the result of \<open>locate_as_claimed\<close>, and no
  exception reaches its caller.
\<close>

theorem findDownloadControl_continues_after_throwing_selector:
  "(first_some (map (specific_hit surf) specificSelectors) = Some node
      \<longrightarrow> findDownloadControl surf = Inr (Some node))
   \<and> (set (rejected surf) \<subseteq> set specificSelectors
      \<longrightarrow> findDownloadControl surf = Inr (locate_as_claimed surf))"
proof (intro conjI impI)
  assume "first_some (map (specific_hit surf) specificSelectors) = Some node"
  then have "try_specific surf specificSelectors = Some node"
    by (simp add: try_specific_first_some)
  then show "findDownloadControl surf = Inr (Some node)"
    unfolding findDownloadControl_def by (rule locate_specific_hit)
next
  assume sub: "set (rejected surf) \<subseteq> set specificSelectors"
  with lower_tiers_not_specific
  have low: "CLICKABLE_SELECTOR \<notin> set (rejected surf)"
    "DOWNLOAD_ATTR_SELECTOR \<notin> set (rejected surf)" "A_HREF_SELECTOR \<notin> set (rejected surf)"
    by blast+
  show "findDownloadControl surf = Inr (locate_as_claimed surf)"
  proof (cases "try_specific surf specificSelectors")
    case None
    from locate_lower_tiers [OF None low] None show ?thesis
      by (simp add: findDownloadControl_def locate_as_claimed_def try_specific_first_some)
  next
    case (Some node)
    from locate_specific_hit [OF Some] Some show ?thesis
      by (simp add: findDownloadControl_def locate_as_claimed_def try_specific_first_some)
  qed
qed

theorem findDownloadControl_continues_after_throwing_selector_witness:
  "querySelector later_hit_doc (specificSelectors ! 0) = Inl SelectorError
   \<and> querySelector later_hit_doc (specificSelectors ! 2) = Inl SelectorError
   \<and> querySelector later_hit_doc (specificSelectors ! 3) = Inr (Some download_anchor)
   \<and> first_some (map (specific_hit later_hit_doc) specificSelectors) = Some download_anchor
   \<and> lower_tiers later_hit_doc = Some plain_link
   \<and> plain_link \<noteq> download_anchor
   \<and> findDownloadControl later_hit_doc = Inr (Some download_anchor)
   \<and> querySelector broken_engine_doc (specificSelectors ! 0) = Inl SelectorError
   \<and> set (rejected broken_engine_doc) \<subseteq> set specificSelectors
   \<and> first_some (map (specific_hit broken_engine_doc) specificSelectors) = None
   \<and> locate_as_claimed broken_engine_doc = Some download_button
   \<and> findDownloadControl broken_engine_doc = Inr (Some download_button)"
proof -
  have q: "querySelector later_hit_doc (specificSelectors ! 0) = Inl SelectorError"
    "querySelector later_hit_doc (specificSelectors ! 2) = Inl SelectorError"
    "querySelector later_hit_doc (specificSelectors ! 3) = Inr (Some download_anchor)"
    "lower_tiers later_hit_doc = Some plain_link" "plain_link \<noteq> download_anchor"
    "querySelector broken_engine_doc (specificSelectors ! 0) = Inl SelectorError"
    "first_some (map (specific_hit broken_engine_doc) specificSelectors) = None"
    by code_simp+
  have h: "first_some (map (specific_hit later_hit_doc) specificSelectors) = Some download_anchor"
    by code_simp
  have b: "set (rejected broken_engine_doc) \<subseteq> set specificSelectors"
    by (simp add: broken_engine_doc_def empty_doc_def specificSelectors_def)
  have l: "locate_as_claimed broken_engine_doc = Some download_button"
    by code_simp
  from findDownloadControl_continues_after_throwing_selector
    [of later_hit_doc download_anchor] h
  have r1: "findDownloadControl later_hit_doc = Inr (Some download_anchor)"
    by blast
  from findDownloadControl_continues_after_throwing_selector [of broken_engine_doc] b
  have "findDownloadControl broken_engine_doc = Inr (locate_as_claimed broken_engine_doc)"
    by blast
  then have r2: "findDownloadControl broken_engine_doc = Inr (Some download_button)"
    by (simp add: l)
  from q h b l r1 r2 show ?thesis
    by simp
qed

section \<open>The visibility check\<close>

text \<open>
  Claim C9, as the code has it. When \<open>getComputedStyle\<close> throws, the exception is
  caught where it is thrown and ignored: the style test is skipped and the element is
  judged by the remaining tests alone (not disabled, at least one client rectangle,
  non-zero width and height, inside the viewport, no \<open>aria-hidden\<close> ancestor).
\<close>

theorem isVisibleAndInteractable_style_failure_ignored:
  "computed el = Inl e \<Longrightarrow>
   isVisibleAndInteractable vh el =
     (\<not> disabled el \<and> client_rects el \<noteq> 0 \<and> rect_width el \<noteq> 0 \<and> rect_height el \<noteq> 0
      \<and> 0 \<le> rect_bottom el \<and> rect_top el \<le> vh \<and> \<not> aria_hidden_closest el)"
  by (auto simp add: isVisibleAndInteractable_def)

theorem isVisibleAndInteractable_style_failure_ignored_witness:
  "computed unstyled_button = Inl StyleError
   \<and> isVisibleAndInteractable 10 unstyled_button
   \<and> \<not> isVisibleAndInteractable 5 unstyled_button"
  using isVisibleAndInteractable_style_failure_ignored [of unstyled_button StyleError 10]
    isVisibleAndInteractable_style_failure_ignored [of unstyled_button StyleError 5]
  by (simp add: unstyled_button_def download_button_def base_el_def)

text \<open>Counterexample to claim C9 as stated: the style query of \<open>unstyled_button\<close>
  throws, and the check returns true.\<close>

theorem isVisibleAndInteractable_style_failure_counterexample:
  "computed unstyled_button = Inl StyleError \<and> isVisibleAndInteractable 800 unstyled_button"
  by (simp add: isVisibleAndInteractable_def unstyled_button_def download_button_def base_el_def)

section \<open>The attempt ledger\<close>

lemma getReloadCount_unavailable: "\<not> available st \<Longrightarrow> getReloadCount st = Num 0"
  by (simp add: getReloadCount_def getItem_def)

lemma incrementReloadCount_unavailable:
  "\<not> available st \<Longrightarrow> incrementReloadCount st = (Num 0, st)"
  by (simp add: incrementReloadCount_def setItem_def)

lemma parseInt10_zero: "parseInt10 ''0'' = Num 0"
  by (simp add: parseInt10_def is_js_space_def is_digit_def digit_val_def)

lemma getReloadCount_absent: "item st = None \<Longrightarrow> getReloadCount st = Num 0"
  by (simp add: getReloadCount_def getItem_def parseInt10_zero)

text \<open>Reading back what \<open>incrementReloadCount\<close> wrote.\<close>

lemma is_digit_digit_char: "d < 10 \<Longrightarrow> is_digit (digit_char d)"
  by (simp add: is_digit_def digit_char_def)

lemma digit_val_digit_char: "d < 10 \<Longrightarrow> digit_val (digit_char d) = d"
  by (simp add: digit_val_def digit_char_def)

lemma digits_nonempty: "digits k \<noteq> []"
  by (subst digits.simps) simp

lemma digits_all_digit: "c \<in> set (digits k) \<Longrightarrow> is_digit c"
proof (induction k rule: digits.induct)
  case (1 n)
  then show ?case
    by (subst (asm) (2) digits.simps) (auto simp add: is_digit_digit_char split: if_splits)
qed

lemma digits_value: "foldl (\<lambda>a c. 10 * a + digit_val c) 0 (digits k) = k"
proof (induction k rule: digits.induct)
  case (1 n)
  show ?case
  proof (cases "n < 10")
    case True
    then show ?thesis by (subst digits.simps) (simp add: digit_val_digit_char)
  next
    case False
    with 1 show ?thesis by (subst digits.simps) (simp add: digit_val_digit_char)
  qed
qed

lemma is_digit_plain: "is_digit c \<Longrightarrow> \<not> is_js_space c \<and> c \<noteq> CHR ''+'' \<and> c \<noteq> CHR ''-''"
  by (auto simp add: is_digit_def is_js_space_def)

lemma parseInt10_digit_string:
  assumes "zs \<noteq> []" "\<forall>x\<in>set zs. is_digit x"
  shows "parseInt10 zs = Num (int (foldl (\<lambda>a c. 10 * a + digit_val c) 0 zs))"
    and "parseInt10 (CHR ''-'' # zs) = Num (- int (foldl (\<lambda>a c. 10 * a + digit_val c) 0 zs))"
proof -
  obtain c cs where d: "zs = c # cs"
    using assms(1) by (cases zs) auto
  have tw: "takeWhile is_digit zs = zs"
    using assms(2) by (simp add: takeWhile_eq_all_conv)
  have c: "\<not> is_js_space c \<and> c \<noteq> CHR ''+'' \<and> c \<noteq> CHR ''-''"
    using assms(2) d is_digit_plain by simp
  then have dw: "dropWhile is_js_space zs = zs"
    by (simp add: d)
  have neg: "(case zs of [] \<Rightarrow> False | c # _ \<Rightarrow> c = CHR ''-'') = False"
    using c by (simp add: d)
  have strip: "(case zs of [] \<Rightarrow> []
                | c # cs \<Rightarrow> if c = CHR ''+'' \<or> c = CHR ''-'' then cs else zs) = zs"
    using c by (simp add: d)
  show "parseInt10 zs = Num (int (foldl (\<lambda>a c. 10 * a + digit_val c) 0 zs))"
    unfolding parseInt10_def dw Let_def neg strip tw
    using assms(1) by simp
  have "\<not> is_js_space CHR ''-''"
    by (simp add: is_js_space_def)
  then show "parseInt10 (CHR ''-'' # zs)
      = Num (- int (foldl (\<lambda>a c. 10 * a + digit_val c) 0 zs))"
    using assms(1) by (simp add: parseInt10_def tw Let_def)
qed

lemma parseInt10_js_string: "parseInt10 (js_string (Num n)) = Num n"
  using parseInt10_digit_string [OF digits_nonempty, of "nat n"]
    parseInt10_digit_string [OF digits_nonempty, of "nat (- n)"] digits_all_digit
  by (auto simp add: digits_value)

lemma js_string_nonempty: "js_string v \<noteq> []"
  by (cases v) (simp_all add: digits_nonempty)

lemma getReloadCount_after_setItem:
  "setItem st (js_string (Num n)) = Inr st' \<Longrightarrow> getReloadCount st' = Num n"
  using js_string_nonempty [of "Num n"] parseInt10_js_string [of n]
  by (auto simp add: setItem_def getReloadCount_def getItem_def simp del: js_string.simps
        split: if_splits)

lemma incrementReloadCount_cases:
  assumes "getReloadCount st = Num n"
  shows "(\<not> (available st \<and> writable st) \<and> incrementReloadCount st = (Num 0, st))
       \<or> (available st \<and> writable st
           \<and> incrementReloadCount st
               = (Num (n + 1), st\<lparr>item := Some (js_string (Num (n + 1)))\<rparr>)
           \<and> getReloadCount (st\<lparr>item := Some (js_string (Num (n + 1)))\<rparr>) = Num (n + 1))"
  using assms getReloadCount_after_setItem [of st "n + 1"]
  by (auto simp add: incrementReloadCount_def setItem_def Let_def simp del: js_string.simps)

text \<open>
  Claim C8 at the failing input: the storage is available and holds \<open>abc\<close> under the
  key. \<open>getReloadCount\<close> returns \<open>NaN\<close>, not 0; \<open>NaN >= MAX_RELOADS\<close> is false, so
  \<open>incrementReloadCount\<close> stores \<open>NaN\<close> again and the reload ceiling never applies.
\<close>

theorem getReloadCount_unreadable_item:
  "getReloadCount garbage_storage = NaN
   \<and> \<not> js_ge (getReloadCount garbage_storage) MAX_RELOADS
   \<and> incrementReloadCount garbage_storage = (NaN, garbage_storage\<lparr>item := Some ''NaN''\<rparr>)
   \<and> getReloadCount (garbage_storage\<lparr>item := Some ''NaN''\<rparr>) = NaN"
  by (simp add: getReloadCount_def incrementReloadCount_def getItem_def setItem_def
        garbage_storage_def parseInt10_def is_js_space_def is_digit_def)

section \<open>Relations that every step preserves\<close>

text \<open>
  A reflexive and transitive relation between pages that holds across each elementary
  effect of the script and of the browser holds across every step and every run. The
  elementary effects are: the clock advancing, a load, a change of the document, a call
  of an observer or interval callback of a live instance, a one-shot timer leaving the
  pending set, a call of \<open>startAutoDl\<close>, a watchdog callback, and the re-arming of an
  interval timer.
\<close>

lemma observer_callback_length: "length (insts (observer_callback i p)) = length (insts p)"
  by (simp add: observer_callback_def Let_def split: sum.splits option.splits)

lemma fold_observers_rel:
  assumes refl: "\<And>q. R q q" and trans: "\<And>a b c. R a b \<Longrightarrow> R b c \<Longrightarrow> R a c"
    and obs: "\<And>i q. i < length (insts q) \<Longrightarrow> observing (insts q ! i) \<Longrightarrow> R q (observer_callback i q)"
  shows "\<forall>i\<in>set js. i < length (insts q0) \<Longrightarrow>
     R q0 (fold (\<lambda>i q. if observing (insts q ! i) then observer_callback i q else q) js q0)"
proof (induction js arbitrary: q0)
  case Nil
  show ?case by (simp add: refl)
next
  case (Cons j js)
  let ?q1 = "if observing (insts q0 ! j) then observer_callback j q0 else q0"
  have r1: "R q0 ?q1"
    using Cons.prems by (simp add: refl obs)
  have "\<forall>i\<in>set js. i < length (insts ?q1)"
    using Cons.prems by (simp add: observer_callback_length)
  then have "R ?q1 (fold (\<lambda>i q. if observing (insts q ! i) then observer_callback i q else q) js ?q1)"
    by (rule Cons.IH)
  with r1 show ?case
    by (simp del: fold_simps add: fold_Cons trans [OF r1])
qed

lemma happen_rel:
  assumes refl: "\<And>q. R q q" and trans: "\<And>a b c. R a b \<Longrightarrow> R b c \<Longrightarrow> R a c"
    and load: "\<And>q s. R q (happen (Load s) q)"
    and change: "\<And>q s. R q (q\<lparr>doc := s\<rparr>)"
    and obs: "\<And>i q. i < length (insts q) \<Longrightarrow> observing (insts q ! i) \<Longrightarrow> R q (observer_callback i q)"
    and fire: "\<And>q k. k < length (timeouts q) \<Longrightarrow> pending (timeouts q ! k) \<Longrightarrow>
                 R q (q\<lparr>timeouts := (timeouts q)[k := (timeouts q ! k)\<lparr>pending := False\<rparr>]\<rparr>)"
    and start: "\<And>q. R q (startAutoDl q)"
    and watchdog: "\<And>q i. R q (watchdog_callback i q)"
    and tick: "\<And>q i. i < length (insts q) \<Longrightarrow> timer_on (insts q ! i) \<Longrightarrow>
                 R q (q\<lparr>insts := (insts q)[i := (insts q ! i)\<lparr>next_tick := now q + POLL_INTERVAL_MS\<rparr>]\<rparr>)"
    and timer: "\<And>q i. i < length (insts q) \<Longrightarrow> timer_on (insts q ! i) \<Longrightarrow> R q (timer_callback i q)"
  shows "R p (happen h p)"
proof (cases h)
  case (Load s)
  then show ?thesis using load by simp
next
  case (Change s notify)
  have "R (p\<lparr>doc := s\<rparr>) (fold (\<lambda>i q. if observing (insts q ! i) then observer_callback i q else q)
           [0..<length (insts p)] (p\<lparr>doc := s\<rparr>))"
    by (rule fold_observers_rel [of R, OF refl trans obs]) simp_all
  with change [of p s] Change show ?thesis
    by (auto intro: trans)
next
  case (Timeout k)
  show ?thesis
  proof (cases "k < length (timeouts p) \<and> pending (timeouts p ! k) \<and> due (timeouts p ! k) \<le> now p")
    case False
    then show ?thesis using Timeout refl by auto
  next
    case True
    let ?p1 = "p\<lparr>timeouts := (timeouts p)[k := (timeouts p ! k)\<lparr>pending := False\<rparr>]\<rparr>"
    have a: "R p ?p1" using True fire by blast
    have "R ?p1 (case callback (timeouts p ! k) of StartAutoDl \<Rightarrow> startAutoDl ?p1
                  | Watchdog i \<Rightarrow> watchdog_callback i ?p1)"
      using start watchdog by (cases "callback (timeouts p ! k)") simp_all
    with a have "R p (case callback (timeouts p ! k) of StartAutoDl \<Rightarrow> startAutoDl ?p1
                  | Watchdog i \<Rightarrow> watchdog_callback i ?p1)"
      by (rule trans)
    then show ?thesis using True Timeout by (simp add: Let_def)
  qed
next
  case (Interval i)
  show ?thesis
  proof (cases "i < length (insts p) \<and> timer_on (insts p ! i) \<and> next_tick (insts p ! i) \<le> now p")
    case False
    then show ?thesis using Interval refl by auto
  next
    case True
    let ?p1 = "p\<lparr>insts := (insts p)[i := (insts p ! i)\<lparr>next_tick := now p + POLL_INTERVAL_MS\<rparr>]\<rparr>"
    have a: "R p ?p1" using True tick by blast
    have "R ?p1 (timer_callback i ?p1)"
      using True by (intro timer) simp_all
    with a have "R p (timer_callback i ?p1)" by (rule trans)
    then show ?thesis using True Interval by simp
  qed
qed

lemma step_rel:
  assumes refl: "\<And>q. R q q" and trans: "\<And>a b c. R a b \<Longrightarrow> R b c \<Longrightarrow> R a c"
    and clock: "\<And>q t. now q \<le> t \<Longrightarrow> R q (q\<lparr>now := t\<rparr>)"
    and load: "\<And>q s. R q (happen (Load s) q)"
    and change: "\<And>q s. R q (q\<lparr>doc := s\<rparr>)"
    and obs: "\<And>i q. i < length (insts q) \<Longrightarrow> observing (insts q ! i) \<Longrightarrow> R q (observer_callback i q)"
    and fire: "\<And>q k. k < length (timeouts q) \<Longrightarrow> pending (timeouts q ! k) \<Longrightarrow>
                 R q (q\<lparr>timeouts := (timeouts q)[k := (timeouts q ! k)\<lparr>pending := False\<rparr>]\<rparr>)"
    and start: "\<And>q. R q (startAutoDl q)"
    and watchdog: "\<And>q i. R q (watchdog_callback i q)"
    and tick: "\<And>q i. i < length (insts q) \<Longrightarrow> timer_on (insts q ! i) \<Longrightarrow>
                 R q (q\<lparr>insts := (insts q)[i := (insts q ! i)\<lparr>next_tick := now q + POLL_INTERVAL_MS\<rparr>]\<rparr>)"
    and timer: "\<And>q i. i < length (insts q) \<Longrightarrow> timer_on (insts q ! i) \<Longrightarrow> R q (timer_callback i q)"
  shows "R p (step ev p)"
proof (cases ev)
  case (Pair t h)
  show ?thesis
  proof (cases "t < now p")
    case True
    then show ?thesis using Pair refl by (simp add: step_def)
  next
    case False
    then have "R p (p\<lparr>now := t\<rparr>)" using clock by simp
    moreover have "R (p\<lparr>now := t\<rparr>) (happen h (p\<lparr>now := t\<rparr>))"
      by (rule happen_rel [of R, OF refl trans load change obs fire start watchdog tick timer])
    ultimately show ?thesis using False Pair trans by (auto simp add: step_def)
  qed
qed

lemma run_rel:
  assumes refl: "\<And>q. R q q" and trans: "\<And>a b c. R a b \<Longrightarrow> R b c \<Longrightarrow> R a c"
    and clock: "\<And>q t. now q \<le> t \<Longrightarrow> R q (q\<lparr>now := t\<rparr>)"
    and load: "\<And>q s. R q (happen (Load s) q)"
    and change: "\<And>q s. R q (q\<lparr>doc := s\<rparr>)"
    and obs: "\<And>i q. i < length (insts q) \<Longrightarrow> observing (insts q ! i) \<Longrightarrow> R q (observer_callback i q)"
    and fire: "\<And>q k. k < length (timeouts q) \<Longrightarrow> pending (timeouts q ! k) \<Longrightarrow>
                 R q (q\<lparr>timeouts := (timeouts q)[k := (timeouts q ! k)\<lparr>pending := False\<rparr>]\<rparr>)"
    and start: "\<And>q. R q (startAutoDl q)"
    and watchdog: "\<And>q i. R q (watchdog_callback i q)"
    and tick: "\<And>q i. i < length (insts q) \<Longrightarrow> timer_on (insts q ! i) \<Longrightarrow>
                 R q (q\<lparr>insts := (insts q)[i := (insts q ! i)\<lparr>next_tick := now q + POLL_INTERVAL_MS\<rparr>]\<rparr>)"
    and timer: "\<And>q i. i < length (insts q) \<Longrightarrow> timer_on (insts q ! i) \<Longrightarrow> R q (timer_callback i q)"
  shows "R p (run evs p)"
proof (induction evs arbitrary: p)
  case Nil
  show ?case by (simp add: run_def refl)
next
  case (Cons ev evs)
  have "R p (step ev p)"
    by (rule step_rel [of R, OF refl trans clock load change obs fire start watchdog tick timer])
  moreover have "R (step ev p) (run evs (step ev p))"
    by (rule Cons.IH)
  ultimately show ?case
    using trans by (auto simp add: run_def)
qed


section \<open>Facts about the example documents and storages\<close>

lemma list_update_Cons_if: "(x # xs)[n := y] = (if n = 0 then y # xs else x # xs[n - 1 := y])"
  by (cases n) simp_all

lemma busy_doc_facts:
  "findDownloadControl busy_doc = Inr None" "isBusyUiPresent busy_doc = Inr True"
  "observable busy_doc"
  by code_simp+

lemma empty_doc_facts:
  "findDownloadControl empty_doc = Inr None" "isBusyUiPresent empty_doc = Inr False"
  "observable empty_doc"
  by code_simp+

lemma empty_storage_count: "getReloadCount empty_storage = Num 0"
  by (simp add: getReloadCount_absent empty_storage_def)

lemma no_storage_count: "getReloadCount no_storage = Num 0"
  by (simp add: getReloadCount_unavailable no_storage_def)

lemma extraWait_0:
  "extraWait (Num 0) = Delay (Num 7000)" "timer_delay (Delay (Num 7000)) = 7000"
  by (simp_all add: extraWait_def INITIAL_WAIT_MS_def timer_delay_def BACKOFF_FACTOR_def)

lemma run_append: "run (xs @ ys) p = run ys (run xs p)"
  by (simp add: run_def)

lemmas machine_defs =
  run_def step_def fresh_def startAutoDl_def timer_callback_def watchdog_callback_def
  observer_callback_def Let_def POLL_INTERVAL_MS_def INITIAL_WAIT_MS_def OBSERVER_TIMEOUT_MS_def
  MAX_RELOADS_def list_update_Cons_if

lemma watch_run_busy:
  "run (watch_run busy_doc) (fresh st) =
     \<lparr>now = 6650, doc = busy_doc,
      insts = [\<lparr>resolved = False, observing = True, timer_on = True, next_tick = 7150,
               elapsed = 6500\<rparr>],
      timeouts = [\<lparr>due = 150, callback = StartAutoDl, pending = False\<rparr>,
                  \<lparr>due = 30150, callback = Watchdog 0, pending = True\<rparr>],
      store = st, trace = []\<rparr>"
  by (simp add: watch_run_def machine_defs busy_doc_facts)

lemma watch_run_empty:
  "run (watch_run empty_doc) (fresh st) =
     \<lparr>now = 6650, doc = empty_doc,
      insts = [\<lparr>resolved = False, observing = True, timer_on = True, next_tick = 7150,
               elapsed = 6500\<rparr>],
      timeouts = [\<lparr>due = 150, callback = StartAutoDl, pending = False\<rparr>,
                  \<lparr>due = 30150, callback = Watchdog 0, pending = True\<rparr>],
      store = st, trace = []\<rparr>"
  by (simp add: watch_run_def machine_defs empty_doc_facts)

section \<open>Busy backoff and the ledger\<close>

lemma observed_fold:
  "observed q (fold (\<lambda>i q. if observing (insts q ! i) then observer_callback i q else q)
                 [0..<length (insts q)] q)"
proof (rule fold_observers_rel [where R = observed])
  show "\<And>q. observed q q"
    by (simp add: observed_def)
  show "\<And>a b c. observed a b \<Longrightarrow> observed b c \<Longrightarrow> observed a c"
    unfolding observed_def by auto
  show "\<And>i q. i < length (insts q) \<Longrightarrow> observing (insts q ! i) \<Longrightarrow>
          observed q (observer_callback i q)"
    by (auto simp add: observed_def observer_callback_def Let_def
          split: sum.splits option.splits)
  show "\<forall>i\<in>set [0..<length (insts q)]. i < length (insts q)"
    by simp
qed

lemma tick_busy:
  assumes "expires p (t, Interval i)"
    "findDownloadControl (doc p) = Inr None" "isBusyUiPresent (doc p) = Inr True"
  shows "store (step (t, Interval i) p) = store p"
    and "trace (step (t, Interval i) p)
           = trace p @ [Backoff i (extraWait (getReloadCount (store p)))]"
    and "timeouts (step (t, Interval i) p) = timeouts p @
          [\<lparr>due = t + timer_delay (extraWait (getReloadCount (store p))),
            callback = StartAutoDl, pending = True\<rparr>]"
  using assms by (simp_all add: step_def timer_callback_def Let_def)

lemma step_increment:
  assumes "store (step ev p) \<noteq> store p
           \<or> (\<exists>j v. Increment j v \<in> set (new_actions p (step ev p)))"
  shows "\<exists>t j v. ev = (t, Interval j) \<and> isBusyUiPresent (doc p) = Inr False
           \<and> new_actions p (step ev p) = [Increment j v, Reload j]"
proof (cases ev)
  case (Pair t h)
  show ?thesis
  proof (cases "t < now p")
    case True
    with assms Pair show ?thesis
      by (simp add: step_def new_actions_def)
  next
    case False
    let ?p = "p\<lparr>now := t\<rparr>"
    have st: "step ev p = happen h ?p"
      using False Pair by (simp add: step_def)
    show ?thesis
    proof (cases h)
      case (Load s)
      with assms st show ?thesis
        by (simp add: new_actions_def)
    next
      case (Change s notify)
      have "observed (?p\<lparr>doc := s\<rparr>)
              (fold (\<lambda>i q. if observing (insts q ! i) then observer_callback i q else q)
                 [0..<length (insts (?p\<lparr>doc := s\<rparr>))] (?p\<lparr>doc := s\<rparr>))"
        by (rule observed_fold)
      then have "observed (?p\<lparr>doc := s\<rparr>) (happen (Change s True) ?p)"
        by simp
      then have "store (step ev p) = store p
          \<and> (\<exists>new. trace (step ev p) = trace p @ new \<and> (\<forall>x\<in>set new. shape_of x = Activated))"
        using st Change by (cases notify) (auto simp add: observed_def)
      with assms show ?thesis
        by (fastforce simp add: new_actions_def)
    next
      case (Timeout k)
      have "store (step ev p) = store p
          \<and> (\<exists>new. trace (step ev p) = trace p @ new \<and> (\<forall>x\<in>set new. shape_of x = Activated))"
        using st Timeout
        by (auto simp add: Let_def startAutoDl_def watchdog_callback_def
              split: callback.splits sum.splits option.splits)
      with assms show ?thesis
        by (fastforce simp add: new_actions_def)
    next
      case (Interval i)
      show ?thesis
        using assms st Interval Pair
        by (auto simp add: new_actions_def timer_callback_def Let_def
              split: if_splits sum.splits option.splits bool.splits prod.splits)
    qed
  qed
qed

text \<open>
  Claim C7. When the watch window of an instance expires on a surface that holds no
  qualifying control and indicates busy, the step schedules the backoff re-entry and nothing
  else: the storage is unchanged and the only new action is the backoff, whose delay is
  computed from the ledger value as it stands. And whatever the event, a step that
  changes the storage or calls \<open>incrementReloadCount\<close> is an interval tick on a
  surface that does not indicate busy, and its actions are exactly the increment
  followed by the reload.
\<close>

theorem busy_backoff_never_increments:
  "(expires p (t, Interval i) \<and> findDownloadControl (doc p) = Inr None
      \<and> isBusyUiPresent (doc p) = Inr True
     \<longrightarrow> store (step (t, Interval i) p) = store p
         \<and> new_actions p (step (t, Interval i) p)
             = [Backoff i (extraWait (getReloadCount (store p)))]
         \<and> timeouts (step (t, Interval i) p) = timeouts p @
             [\<lparr>due = t + timer_delay (extraWait (getReloadCount (store p))),
               callback = StartAutoDl, pending = True\<rparr>])
   \<and> (store (step ev p) \<noteq> store p \<or> (\<exists>j v. Increment j v \<in> set (new_actions p (step ev p)))
     \<longrightarrow> (\<exists>t j v. ev = (t, Interval j) \<and> isBusyUiPresent (doc p) = Inr False
            \<and> new_actions p (step ev p) = [Increment j v, Reload j]))"
  using tick_busy [of p t i] step_increment [of ev p]
  by (auto simp add: new_actions_def)

theorem busy_backoff_never_increments_witness:
  "expires (run (watch_run busy_doc) (fresh empty_storage)) (7150, Interval 0)
   \<and> findDownloadControl (doc (run (watch_run busy_doc) (fresh empty_storage))) = Inr None
   \<and> isBusyUiPresent (doc (run (watch_run busy_doc) (fresh empty_storage))) = Inr True
   \<and> store (step (7150, Interval 0) (run (watch_run busy_doc) (fresh empty_storage)))
       = empty_storage
   \<and> new_actions (run (watch_run busy_doc) (fresh empty_storage))
        (step (7150, Interval 0) (run (watch_run busy_doc) (fresh empty_storage)))
       = [Backoff 0 (Delay (Num 7000))]
   \<and> store (step (7150, Interval 0) (run (watch_run empty_doc) (fresh empty_storage)))
       \<noteq> store (run (watch_run empty_doc) (fresh empty_storage))
   \<and> isBusyUiPresent (doc (run (watch_run empty_doc) (fresh empty_storage))) = Inr False
   \<and> (\<exists>v. new_actions (run (watch_run empty_doc) (fresh empty_storage))
             (step (7150, Interval 0) (run (watch_run empty_doc) (fresh empty_storage)))
          = [Increment 0 v, Reload 0])"
proof -
  let ?b = "run (watch_run busy_doc) (fresh empty_storage)"
  let ?e = "run (watch_run empty_doc) (fresh empty_storage)"
  have h: "expires ?b (7150, Interval 0) \<and> findDownloadControl (doc ?b) = Inr None
      \<and> isBusyUiPresent (doc ?b) = Inr True"
    by (simp add: watch_run_busy busy_doc_facts INITIAL_WAIT_MS_def POLL_INTERVAL_MS_def)
  have g: "store (step (7150, Interval 0) ?e) \<noteq> store ?e"
    by (simp only: watch_run_empty)
       (simp add: machine_defs empty_doc_facts getReloadCount_absent
          incrementReloadCount_def setItem_def empty_storage_def)
  from h busy_backoff_never_increments [of ?b 7150 0 "(7150, Interval 0)"]
  have a: "store (step (7150, Interval 0) ?b) = store ?b
      \<and> new_actions ?b (step (7150, Interval 0) ?b)
          = [Backoff 0 (extraWait (getReloadCount (store ?b)))]"
    by blast
  from g busy_backoff_never_increments [of ?e 7150 0 "(7150, Interval 0)"]
  have b: "isBusyUiPresent (doc ?e) = Inr False
      \<and> (\<exists>v. new_actions ?e (step (7150, Interval 0) ?e) = [Increment 0 v, Reload 0])"
    by blast
  have c: "store ?b = empty_storage"
    by (simp add: watch_run_busy)
  from h g a b show ?thesis
    by (simp add: c empty_storage_count extraWait_0)
qed

section \<open>The backoff delay\<close>










section \<open>Runs, traces and the relations they preserve\<close>

lemma run_Cons: "run (ev # evs) p = run evs (step ev p)"
  by (simp add: run_def)

lemma run_single: "run [ev] p = step ev p"
  by (simp add: run_def)

lemma extends_run: "extends p (run evs p)"
proof (rule run_rel [where R = extends])
  show "\<And>q. extends q q" by (simp add: extends_def)
  show "\<And>a b c. extends a b \<Longrightarrow> extends b c \<Longrightarrow> extends a c"
    unfolding extends_def by auto
  show "\<And>q t. now q \<le> t \<Longrightarrow> extends q (q\<lparr>now := t\<rparr>)"
    by (simp add: extends_def)
  show "\<And>q s. extends q (happen (Load s) q)"
    by (simp add: extends_def)
  show "\<And>q s. extends q (q\<lparr>doc := s\<rparr>)"
    by (simp add: extends_def)
  show "\<And>j q. j < length (insts q) \<Longrightarrow> observing (insts q ! j) \<Longrightarrow> extends q (observer_callback j q)"
    by (auto simp add: extends_def observer_callback_def Let_def split: sum.splits option.splits)
  show "\<And>q k. k < length (timeouts q) \<Longrightarrow> pending (timeouts q ! k) \<Longrightarrow>
                 extends q (q\<lparr>timeouts := (timeouts q)[k := (timeouts q ! k)\<lparr>pending := False\<rparr>]\<rparr>)"
    by (simp add: extends_def)
  show "\<And>q. extends q (startAutoDl q)"
    by (auto simp add: extends_def startAutoDl_def split: sum.splits option.splits)
  show "\<And>q j. extends q (watchdog_callback j q)"
    by (auto simp add: extends_def watchdog_callback_def)
  show "\<And>q j. j < length (insts q) \<Longrightarrow> timer_on (insts q ! j) \<Longrightarrow>
                 extends q (q\<lparr>insts := (insts q)[j := (insts q ! j)\<lparr>next_tick := now q + POLL_INTERVAL_MS\<rparr>]\<rparr>)"
    by (simp add: extends_def)
  show "\<And>q j. j < length (insts q) \<Longrightarrow> timer_on (insts q ! j) \<Longrightarrow> extends q (timer_callback j q)"
    by (auto simp add: extends_def timer_callback_def Let_def split: sum.splits option.splits bool.splits prod.splits)
qed

lemma new_actions_Cons:
  "new_actions p (run (ev # evs) p) = new_actions p (step ev p) @ new_actions (step ev p) (run evs (step ev p))"
proof -
  from extends_run [of p "[ev]"] obtain x where x: "trace (step ev p) = trace p @ x"
    by (auto simp add: extends_def run_single)
  from extends_run [of "step ev p" evs] obtain y where y: "trace (run evs (step ev p)) = trace (step ev p) @ y"
    by (auto simp add: extends_def)
  show ?thesis
    by (simp add: run_Cons new_actions_def x y)
qed

lemma step_increment_guard:
  assumes "Increment j v \<in> set (new_actions p (step ev p))"
  shows "\<not> js_ge (ledger p) MAX_RELOADS \<and> incrementReloadCount (store p) = (v, store (step ev p))"
proof -
  from step_increment [of ev p] assms obtain t j' v' where
    ev: "ev = (t, Interval j')" and new: "new_actions p (step ev p) = [Increment j' v', Reload j']"
    by blast
  from assms new have jv: "j' = j" "v' = v" by auto
  show ?thesis
    using new ev jv
    by (auto simp add: ledger_def step_def new_actions_def timer_callback_def Let_def
          split: if_splits sum.splits option.splits bool.splits prod.splits)
qed

lemma timer_callback_ledger:
  assumes "ledger p = Num n"
  shows "ledger (timer_callback i p) = Num n \<or> (n < MAX_RELOADS \<and> ledger (timer_callback i p) = Num (n + 1))"
  using assms incrementReloadCount_cases [of "store p" n]
  by (auto simp add: ledger_def timer_callback_def Let_def simp del: js_string.simps
        split: sum.splits option.splits bool.splits prod.splits)

lemma ledger_grows_run: "ledger_grows p (run evs p)"
proof (rule run_rel [where R = ledger_grows])
  show "\<And>q. ledger_grows q q" by (simp add: ledger_grows_def)
  show "\<And>a b c. ledger_grows a b \<Longrightarrow> ledger_grows b c \<Longrightarrow> ledger_grows a c"
    unfolding ledger_grows_def by (fastforce simp add: MAX_RELOADS_def)
  show "\<And>q t. now q \<le> t \<Longrightarrow> ledger_grows q (q\<lparr>now := t\<rparr>)"
    by (simp add: ledger_grows_def ledger_def)
  show "\<And>q s. ledger_grows q (happen (Load s) q)"
    by (simp add: ledger_grows_def ledger_def)
  show "\<And>q s. ledger_grows q (q\<lparr>doc := s\<rparr>)"
    by (simp add: ledger_grows_def ledger_def)
  show "\<And>j q. j < length (insts q) \<Longrightarrow> observing (insts q ! j) \<Longrightarrow> ledger_grows q (observer_callback j q)"
    by (auto simp add: ledger_grows_def ledger_def observer_callback_def Let_def split: sum.splits option.splits)
  show "\<And>q k. k < length (timeouts q) \<Longrightarrow> pending (timeouts q ! k) \<Longrightarrow>
                 ledger_grows q (q\<lparr>timeouts := (timeouts q)[k := (timeouts q ! k)\<lparr>pending := False\<rparr>]\<rparr>)"
    by (simp add: ledger_grows_def ledger_def)
  show "\<And>q. ledger_grows q (startAutoDl q)"
    by (auto simp add: ledger_grows_def ledger_def startAutoDl_def split: sum.splits option.splits)
  show "\<And>q j. ledger_grows q (watchdog_callback j q)"
    by (auto simp add: ledger_grows_def ledger_def watchdog_callback_def)
  show "\<And>q j. j < length (insts q) \<Longrightarrow> timer_on (insts q ! j) \<Longrightarrow>
                 ledger_grows q (q\<lparr>insts := (insts q)[j := (insts q ! j)\<lparr>next_tick := now q + POLL_INTERVAL_MS\<rparr>]\<rparr>)"
    by (simp add: ledger_grows_def ledger_def)
  show "\<And>q j. j < length (insts q) \<Longrightarrow> timer_on (insts q ! j) \<Longrightarrow> ledger_grows q (timer_callback j q)"
    using timer_callback_ledger by (fastforce simp add: ledger_grows_def MAX_RELOADS_def)
qed

lemma latched_refl: "latched i q q"
  by (simp add: latched_def acts_of_def)

lemma latched_trans: "latched i a b \<Longrightarrow> latched i b c \<Longrightarrow> latched i a c"
  unfolding latched_def acts_of_def
  by (elim impCE; clarsimp) 

lemma latched_run: "latched i p (run evs p)"
proof (rule run_rel [where R = "latched i"])
  show "\<And>q. latched i q q" by (rule latched_refl)
  show "\<And>a b c. latched i a b \<Longrightarrow> latched i b c \<Longrightarrow> latched i a c" by (rule latched_trans)
  show "\<And>q t. now q \<le> t \<Longrightarrow> latched i q (q\<lparr>now := t\<rparr>)"
    by (simp add: latched_def acts_of_def)
  show "\<And>q s. latched i q (happen (Load s) q)"
    by (simp add: latched_def acts_of_def)
  show "\<And>q s. latched i q (q\<lparr>doc := s\<rparr>)"
    by (simp add: latched_def acts_of_def)
  show "\<And>j q. j < length (insts q) \<Longrightarrow> observing (insts q ! j) \<Longrightarrow> latched i q (observer_callback j q)"
    by (auto simp add: latched_def acts_of_def observer_callback_def Let_def nth_list_update split: sum.splits option.splits)
  show "\<And>q k. k < length (timeouts q) \<Longrightarrow> pending (timeouts q ! k) \<Longrightarrow>
                 latched i q (q\<lparr>timeouts := (timeouts q)[k := (timeouts q ! k)\<lparr>pending := False\<rparr>]\<rparr>)"
    by (simp add: latched_def acts_of_def)
  show "\<And>q. latched i q (startAutoDl q)"
    by (auto simp add: latched_def acts_of_def startAutoDl_def nth_append split: sum.splits option.splits)
  show "\<And>q j. latched i q (watchdog_callback j q)"
    by (auto simp add: latched_def acts_of_def watchdog_callback_def nth_list_update)
  show "\<And>q j. j < length (insts q) \<Longrightarrow> timer_on (insts q ! j) \<Longrightarrow>
                 latched i q (q\<lparr>insts := (insts q)[j := (insts q ! j)\<lparr>next_tick := now q + POLL_INTERVAL_MS\<rparr>]\<rparr>)"
    by (auto simp add: latched_def acts_of_def nth_list_update)
  show "\<And>q j. j < length (insts q) \<Longrightarrow> timer_on (insts q ! j) \<Longrightarrow> latched i q (timer_callback j q)"
    by (auto simp add: latched_def acts_of_def timer_callback_def Let_def nth_list_update split: sum.splits option.splits bool.splits prod.splits)
qed

lemma resolving_fold:
  "resolving i q (fold (\<lambda>i q. if observing (insts q ! i) then observer_callback i q else q)
                 [0..<length (insts q)] q)"
proof (rule fold_observers_rel [where R = "resolving i"])
  show "\<And>q. resolving i q q"
    by (simp add: resolving_def acts_of_def)
  show "\<And>a b c. resolving i a b \<Longrightarrow> resolving i b c \<Longrightarrow> resolving i a c"
    unfolding resolving_def acts_of_def by (elim impCE; clarsimp; fastforce)
  show "\<And>j q. j < length (insts q) \<Longrightarrow> observing (insts q ! j) \<Longrightarrow>
          resolving i q (observer_callback j q)"
    by (auto simp add: resolving_def acts_of_def observer_callback_def Let_def nth_list_update
          split: sum.splits option.splits)
  show "\<forall>j\<in>set [0..<length (insts q)]. j < length (insts q)"
    by simp
qed

lemma latch_step:
  assumes i: "i < length (insts p)" and u: "\<not> resolved (insts p ! i)"
    and r: "resolved (insts (step ev p) ! i)"
  shows "\<not> observing (insts (step ev p) ! i)
     \<and> ((\<exists>t. ev = (t, Interval i)) \<and> \<not> timer_on (insts (step ev p) ! i)
         \<or> (\<exists>t s. ev = (t, Change s True))
            \<and> timer_on (insts (step ev p) ! i) = timer_on (insts p ! i))
     \<and> timeouts (step ev p) = timeouts p
     \<and> (\<exists>org el. acts_of i (new_actions p (step ev p)) = [Activate org el])
     \<and> i < length (insts (step ev p))"
proof (cases ev)
  case (Pair t h)
  show ?thesis
  proof (cases "t < now p")
    case True
    with r u Pair show ?thesis by (simp add: step_def)
  next
    case False
    let ?p = "p\<lparr>now := t\<rparr>"
    have st: "step ev p = happen h ?p" using False Pair by (simp add: step_def)
    show ?thesis
    proof (cases h)
      case (Load s)
      with r u i st show ?thesis by simp
    next
      case (Change s notify)
      show ?thesis
      proof (cases notify)
        case False
        with r u i st Change show ?thesis by simp
      next
        case True
        let ?q = "?p\<lparr>doc := s\<rparr>"
        have "resolving i ?q (fold (\<lambda>i q. if observing (insts q ! i) then observer_callback i q else q)
                 [0..<length (insts ?q)] ?q)"
          by (rule resolving_fold)
        then have "resolving i ?q (step ev p)"
          using st Change True by simp
        with i u r Pair Change True show ?thesis
          by (auto simp add: resolving_def new_actions_def)
      qed
    next
      case (Timeout k)
      with r u i st show ?thesis
        by (auto simp add: Let_def startAutoDl_def watchdog_callback_def nth_append nth_list_update
              split: callback.splits sum.splits option.splits if_splits)
    next
      case (Interval j)
      with r u i st Pair show ?thesis
        by (auto simp add: new_actions_def acts_of_def timer_callback_def Let_def nth_list_update
              split: if_splits sum.splits option.splits bool.splits prod.splits)
    qed
  qed
qed

lemma resolved_tick:
  assumes "i < length (insts r)" "resolved (insts r ! i)" "now r \<le> t" "next_tick (insts r ! i) \<le> t"
  shows "\<not> timer_on (insts (step (t, Interval i) r) ! i)"
  using assms by (simp add: step_def timer_callback_def Let_def)

lemma resolved_watchdog: "resolved (insts r ! i) \<Longrightarrow> watchdog_callback i r = r"
  by (simp add: watchdog_callback_def)

lemma stopped_run: "stopped i p (run evs p)"
proof (rule run_rel [where R = "stopped i"])
  show "\<And>q. stopped i q q" by (simp add: stopped_def acts_of_def)
  show "\<And>a b c. stopped i a b \<Longrightarrow> stopped i b c \<Longrightarrow> stopped i a c"
    unfolding stopped_def acts_of_def by (elim impCE; clarsimp)
  show "\<And>q t. now q \<le> t \<Longrightarrow> stopped i q (q\<lparr>now := t\<rparr>)"
    by (simp add: stopped_def acts_of_def)
  show "\<And>q s. stopped i q (happen (Load s) q)"
    by (simp add: stopped_def acts_of_def)
  show "\<And>q s. stopped i q (q\<lparr>doc := s\<rparr>)"
    by (simp add: stopped_def acts_of_def)
  show "\<And>j q. j < length (insts q) \<Longrightarrow> observing (insts q ! j) \<Longrightarrow> stopped i q (observer_callback j q)"
    by (auto simp add: stopped_def acts_of_def observer_callback_def Let_def nth_list_update split: sum.splits option.splits)
  show "\<And>q k. k < length (timeouts q) \<Longrightarrow> pending (timeouts q ! k) \<Longrightarrow>
                 stopped i q (q\<lparr>timeouts := (timeouts q)[k := (timeouts q ! k)\<lparr>pending := False\<rparr>]\<rparr>)"
    by (simp add: stopped_def acts_of_def)
  show "\<And>q. stopped i q (startAutoDl q)"
    by (auto simp add: stopped_def acts_of_def startAutoDl_def nth_append split: sum.splits option.splits)
  show "\<And>q j. stopped i q (watchdog_callback j q)"
    by (auto simp add: stopped_def acts_of_def watchdog_callback_def nth_list_update)
  show "\<And>q j. j < length (insts q) \<Longrightarrow> timer_on (insts q ! j) \<Longrightarrow>
                 stopped i q (q\<lparr>insts := (insts q)[j := (insts q ! j)\<lparr>next_tick := now q + POLL_INTERVAL_MS\<rparr>]\<rparr>)"
    by (auto simp add: stopped_def acts_of_def nth_list_update)
  show "\<And>q j. j < length (insts q) \<Longrightarrow> timer_on (insts q ! j) \<Longrightarrow> stopped i q (timer_callback j q)"
    by (auto simp add: stopped_def acts_of_def timer_callback_def Let_def nth_list_update split: sum.splits option.splits bool.splits prod.splits)
qed

lemma map_callback_fired:
  "k < length xs \<Longrightarrow> map callback (xs[k := (xs ! k)\<lparr>pending := False\<rparr>]) = map callback xs"
  by (rule nth_equalityI) (auto simp add: nth_list_update)

lemma keeps_watchdogs_run: "keeps_watchdogs p (run evs p)"
proof (rule run_rel [where R = keeps_watchdogs])
  show "\<And>q. keeps_watchdogs q q" by (simp add: keeps_watchdogs_def)
  show "\<And>a b c. keeps_watchdogs a b \<Longrightarrow> keeps_watchdogs b c \<Longrightarrow> keeps_watchdogs a c"
    unfolding keeps_watchdogs_def by blast
  show "\<And>q t. now q \<le> t \<Longrightarrow> keeps_watchdogs q (q\<lparr>now := t\<rparr>)"
    by (simp add: keeps_watchdogs_def one_watchdog_each_def)
  show "\<And>q s. keeps_watchdogs q (happen (Load s) q)"
    by (simp add: keeps_watchdogs_def one_watchdog_each_def comp_def)
  show "\<And>q s. keeps_watchdogs q (q\<lparr>doc := s\<rparr>)"
    by (simp add: keeps_watchdogs_def one_watchdog_each_def)
  show "\<And>j q. j < length (insts q) \<Longrightarrow> observing (insts q ! j) \<Longrightarrow> keeps_watchdogs q (observer_callback j q)"
    by (auto simp add: keeps_watchdogs_def one_watchdog_each_def observer_callback_def Let_def split: sum.splits option.splits)
  show "\<And>q k. k < length (timeouts q) \<Longrightarrow> pending (timeouts q ! k) \<Longrightarrow>
                 keeps_watchdogs q (q\<lparr>timeouts := (timeouts q)[k := (timeouts q ! k)\<lparr>pending := False\<rparr>]\<rparr>)"
    by (simp add: keeps_watchdogs_def one_watchdog_each_def map_callback_fired)
  show "\<And>q. keeps_watchdogs q (startAutoDl q)"
    by (auto simp add: keeps_watchdogs_def one_watchdog_each_def startAutoDl_def split: sum.splits option.splits)
  show "\<And>q j. keeps_watchdogs q (watchdog_callback j q)"
    by (auto simp add: keeps_watchdogs_def one_watchdog_each_def watchdog_callback_def)
  show "\<And>q j. j < length (insts q) \<Longrightarrow> timer_on (insts q ! j) \<Longrightarrow>
                 keeps_watchdogs q (q\<lparr>insts := (insts q)[j := (insts q ! j)\<lparr>next_tick := now q + POLL_INTERVAL_MS\<rparr>]\<rparr>)"
    by (simp add: keeps_watchdogs_def one_watchdog_each_def)
  show "\<And>q j. j < length (insts q) \<Longrightarrow> timer_on (insts q ! j) \<Longrightarrow> keeps_watchdogs q (timer_callback j q)"
    by (auto simp add: keeps_watchdogs_def one_watchdog_each_def timer_callback_def Let_def split: sum.splits option.splits bool.splits prod.splits)
qed

lemma quiet_observers:
  "findDownloadControl (doc q) = Inr None \<Longrightarrow>
   fold (\<lambda>i q. if observing (insts q ! i) then observer_callback i q else q) js q = q"
  by (induction js) (simp_all add: observer_callback_def Let_def)

lemma watchdog_step:
  assumes "k < length (timeouts p)" "pending (timeouts p ! k)" "due (timeouts p ! k) \<le> t" "now p \<le> t"
    "callback (timeouts p ! k) = Watchdog i" "i < length (insts p)" "\<not> resolved (insts p ! i)"
  shows "step (t, Timeout k) p =
      p\<lparr>now := t, insts := (insts p)[i := (insts p ! i)\<lparr>observing := False, timer_on := False\<rparr>],
        timeouts := (timeouts p)[k := (timeouts p ! k)\<lparr>pending := False\<rparr>]\<rparr>"
  using assms by (simp add: step_def watchdog_callback_def Let_def)

lemma quiet_step:
  assumes q: "quiet (doc p)" and e: "quiet_event ev"
    and s: "available (store p)" "writable (store p)" and l: "ledger p = Num n"
  shows "quiet (doc (step ev p)) \<and> available (store (step ev p)) \<and> writable (store (step ev p))
     \<and> (if expires p ev
         then (if n < MAX_RELOADS
               then (\<exists>i. new_actions p (step ev p) = [Increment i (Num (n + 1)), Reload i])
                    \<and> ledger (step ev p) = Num (n + 1)
               else (\<exists>i. new_actions p (step ev p) = [GiveUp i (Num n)])
                    \<and> store (step ev p) = store p)
         else new_actions p (step ev p) = [] \<and> store (step ev p) = store p)"
proof (cases ev)
  case (Pair t h)
  show ?thesis
  proof (cases "t < now p")
    case True
    with assms Pair show ?thesis
      by (cases h) (simp_all add: step_def new_actions_def)
  next
    case False
    let ?p = "p\<lparr>now := t\<rparr>"
    have st: "step ev p = happen h ?p" using False Pair by (simp add: step_def)
    show ?thesis
    proof (cases h)
      case (Load d)
      with assms st Pair show ?thesis by (simp add: new_actions_def)
    next
      case (Change d notify)
      with e Pair have "findDownloadControl (doc (?p\<lparr>doc := d\<rparr>)) = Inr None"
        by (simp add: quiet_def)
      then have "happen h ?p = ?p\<lparr>doc := d\<rparr>"
        using Change by (simp add: quiet_observers)
      with assms st Pair Change show ?thesis by (simp add: new_actions_def)
    next
      case (Timeout k)
      with assms st Pair show ?thesis
        by (auto simp add: quiet_def new_actions_def Let_def startAutoDl_def watchdog_callback_def
              split: callback.splits)
    next
      case (Interval i)
      from incrementReloadCount_cases [of "store p" n] l s
      have inc: "incrementReloadCount (store p)
               = (Num (n + 1), (store p)\<lparr>item := Some (js_string (Num (n + 1)))\<rparr>)"
        and rd: "getReloadCount ((store p)\<lparr>item := Some (js_string (Num (n + 1)))\<rparr>) = Num (n + 1)"
        by (simp_all add: ledger_def)
      show ?thesis
        using q s l st Pair Interval False inc rd
        by (auto simp add: quiet_def ledger_def new_actions_def timer_callback_def Let_def
              simp del: js_string.simps)
    qed
  qed
qed

lemma quiet_run:
  assumes "quiet (doc p)" "\<forall>ev\<in>set evs. quiet_event ev"
    "available (store p)" "writable (store p)" "ledger p = Num n"
  shows "\<exists>r g. map shape_of (new_actions p (run evs p))
                 = reload_shapes n r @ replicate g (GaveUp (Num (n + int r)))
           \<and> r + g = expiries p evs
           \<and> ledger (run evs p) = Num (n + int r)
           \<and> (0 < r \<longrightarrow> n + int r \<le> MAX_RELOADS)
           \<and> (0 < g \<longrightarrow> MAX_RELOADS \<le> n + int r)"
  using assms
proof (induction evs arbitrary: p n)
  case Nil
  then show ?case
    by (rule_tac x = 0 in exI, rule_tac x = 0 in exI) (simp add: run_def new_actions_def)
next
  case (Cons ev evs)
  let ?q = "step ev p"
  from Cons.prems have ev: "quiet_event ev" and evs: "\<forall>e\<in>set evs. quiet_event e"
    by simp_all
  note qs = quiet_step [OF Cons.prems(1) ev Cons.prems(3) Cons.prems(4) Cons.prems(5)]
  then have inv: "quiet (doc ?q)" "available (store ?q)" "writable (store ?q)"
    by simp_all
  consider (idle) "\<not> expires p ev"
    | (reload) "expires p ev" "n < MAX_RELOADS"
    | (giveup) "expires p ev" "\<not> n < MAX_RELOADS"
    by blast
  then show ?case
  proof cases
    case idle
    with qs have new: "new_actions p ?q = []" and l: "ledger ?q = Num n"
      using Cons.prems(5) by (simp_all add: ledger_def)
    from Cons.IH [OF inv(1) evs inv(2) inv(3) l] obtain r g where
      "map shape_of (new_actions ?q (run evs ?q)) = reload_shapes n r @ replicate g (GaveUp (Num (n + int r)))"
      "r + g = expiries ?q evs" "ledger (run evs ?q) = Num (n + int r)"
      "0 < r \<longrightarrow> n + int r \<le> MAX_RELOADS" "0 < g \<longrightarrow> MAX_RELOADS \<le> n + int r"
      by blast
    with idle new show ?thesis
      unfolding new_actions_Cons
      by (rule_tac x = "r" in exI, rule_tac x = "g" in exI) (simp add: run_Cons)
  next
    case reload
    with qs obtain i where new: "new_actions p ?q = [Increment i (Num (n + 1)), Reload i]"
      and l: "ledger ?q = Num (n + 1)"
      by auto
    from Cons.IH [OF inv(1) evs inv(2) inv(3) l] obtain r g where
      "map shape_of (new_actions ?q (run evs ?q)) = reload_shapes (n + 1) r @ replicate g (GaveUp (Num (n + 1 + int r)))"
      "r + g = expiries ?q evs" "ledger (run evs ?q) = Num (n + 1 + int r)"
      "0 < r \<longrightarrow> n + 1 + int r \<le> MAX_RELOADS" "0 < g \<longrightarrow> MAX_RELOADS \<le> n + 1 + int r"
      by blast
    with reload new show ?thesis
      unfolding new_actions_Cons
      by (rule_tac x = "Suc r" in exI, rule_tac x = "g" in exI) (auto simp add: run_Cons add.assoc add.commute add.left_commute)
  next
    case giveup
    with qs obtain i where new: "new_actions p ?q = [GiveUp i (Num n)]"
      and l: "ledger ?q = Num n"
      using Cons.prems(5) by (auto simp add: ledger_def)
    from Cons.IH [OF inv(1) evs inv(2) inv(3) l] obtain r g where
      IH: "map shape_of (new_actions ?q (run evs ?q)) = reload_shapes n r @ replicate g (GaveUp (Num (n + int r)))"
      "r + g = expiries ?q evs" "ledger (run evs ?q) = Num (n + int r)"
      "0 < r \<longrightarrow> n + int r \<le> MAX_RELOADS" "0 < g \<longrightarrow> MAX_RELOADS \<le> n + int r"
      by blast
    with giveup have r0: "r = 0" by (cases r) auto
    with giveup new IH show ?thesis
      unfolding new_actions_Cons
      by (rule_tac x = "0" in exI, rule_tac x = "Suc g" in exI) (simp add: run_Cons)
  qed
qed


section \<open>Facts about the example runs\<close>

lemma ready_doc_facts:
  "findDownloadControl ready_doc = Inr (Some download_button)"
  by code_simp

lemma blank_doc_quiet:
  "quiet \<lparr>elements = [], body_text = [], viewport_height = 0, rejected = [], observable = True\<rparr>"
  by code_simp

lemma empty_doc_quiet: "quiet empty_doc"
  by (simp add: quiet_def empty_doc_facts)

lemma short_watch_state:
  "run short_watch (fresh st) =
     \<lparr>now = 1650, doc = empty_doc,
      insts = [\<lparr>resolved = False, observing = True, timer_on = True, next_tick = 2150,
               elapsed = 1500\<rparr>],
      timeouts = [\<lparr>due = 150, callback = StartAutoDl, pending = False\<rparr>,
                  \<lparr>due = 30150, callback = Watchdog 0, pending = True\<rparr>],
      store = st, trace = []\<rparr>"
  by (simp add: short_watch_def machine_defs empty_doc_facts)

lemma seen_by_observer_state:
  "seen_by_observer =
     \<lparr>now = 1700, doc = ready_doc,
      insts = [\<lparr>resolved = True, observing = False, timer_on = True, next_tick = 2150,
               elapsed = 1500\<rparr>],
      timeouts = [\<lparr>due = 150, callback = StartAutoDl, pending = False\<rparr>,
                  \<lparr>due = 30150, callback = Watchdog 0, pending = True\<rparr>],
      store = empty_storage, trace = [Activate (ByObserver 0) download_button]\<rparr>"
  unfolding seen_by_observer_def run_append short_watch_state
  by (simp add: machine_defs ready_doc_facts)

lemma seen_by_poll_state:
  "seen_by_poll =
     \<lparr>now = 2150, doc = ready_doc,
      insts = [\<lparr>resolved = True, observing = False, timer_on = False, next_tick = 2650,
               elapsed = 1500\<rparr>],
      timeouts = [\<lparr>due = 150, callback = StartAutoDl, pending = False\<rparr>,
                  \<lparr>due = 30150, callback = Watchdog 0, pending = True\<rparr>],
      store = empty_storage, trace = [Activate (ByPoll 0) download_button]\<rparr>"
  unfolding seen_by_poll_def run_append short_watch_state
  by (simp add: machine_defs ready_doc_facts)

lemma busy_page_state:
  "busy_page =
     \<lparr>now = 30150, doc = busy_doc,
      insts = [\<lparr>resolved = False, observing = False, timer_on = False, next_tick = 7650,
               elapsed = 7000\<rparr>,
              \<lparr>resolved = False, observing = False, timer_on = False, next_tick = 21650,
               elapsed = 7000\<rparr>,
              \<lparr>resolved = False, observing = True, timer_on = True, next_tick = 30150,
               elapsed = 1500\<rparr>],
      timeouts = [\<lparr>due = 150, callback = StartAutoDl, pending = False\<rparr>,
                  \<lparr>due = 30150, callback = Watchdog 0, pending = False\<rparr>,
                  \<lparr>due = 14150, callback = StartAutoDl, pending = False\<rparr>,
                  \<lparr>due = 44150, callback = Watchdog 1, pending = True\<rparr>,
                  \<lparr>due = 28150, callback = StartAutoDl, pending = False\<rparr>,
                  \<lparr>due = 58150, callback = Watchdog 2, pending = True\<rparr>],
      store = empty_storage,
      trace = [Backoff 0 (Delay (Num 7000)), Backoff 1 (Delay (Num 7000))]\<rparr>"
  unfolding busy_page_def
  by (simp add: busy_run_def machine_defs busy_doc_facts empty_storage_count extraWait_0)

lemma expiry_run_no_storage:
  "run (expiry_run empty_doc) (fresh no_storage) =
     \<lparr>now = 7150, doc = empty_doc,
      insts = [\<lparr>resolved = False, observing = False, timer_on = False, next_tick = 7650,
               elapsed = 7000\<rparr>],
      timeouts = [\<lparr>due = 150, callback = StartAutoDl, pending = False\<rparr>,
                  \<lparr>due = 30150, callback = Watchdog 0, pending = True\<rparr>],
      store = no_storage, trace = [Increment 0 (Num 0), Reload 0]\<rparr>"
  unfolding expiry_run_def run_append watch_run_empty
  by (simp add: machine_defs empty_doc_facts getReloadCount_unavailable
        incrementReloadCount_unavailable no_storage_def)

lemma storage_1: "incrementReloadCount empty_storage = (Num 1, empty_storage\<lparr>item := Some ''1''\<rparr>)"
  "getReloadCount (empty_storage\<lparr>item := Some ''1''\<rparr>) = Num 1"
  "incrementReloadCount (empty_storage\<lparr>item := Some ''1''\<rparr>) = (Num 2, empty_storage\<lparr>item := Some ''2''\<rparr>)"
  "getReloadCount (empty_storage\<lparr>item := Some ''2''\<rparr>) = Num 2"
  "incrementReloadCount (empty_storage\<lparr>item := Some ''2''\<rparr>) = (Num 3, empty_storage\<lparr>item := Some ''3''\<rparr>)"
  "getReloadCount (empty_storage\<lparr>item := Some ''3''\<rparr>) = Num 3"
  by code_simp+

lemma quiet_session_trace:
  "trace (run quiet_session (fresh empty_storage)) =
     [Increment 0 (Num 1), Reload 0, Increment 1 (Num 2), Reload 1, Increment 2 (Num 3), Reload 2,
      GiveUp 3 (Num 3)]
   \<and> store (run quiet_session (fresh empty_storage)) = empty_storage\<lparr>item := Some ''3''\<rparr>"
  by (simp add: quiet_session_def machine_defs empty_doc_facts empty_storage_count storage_1)

section \<open>The ledger over runs\<close>

text \<open>
  Claim C2. Tampering aside, the ledger reads a non-negative integer \<open>n\<close>. From
  there, along every run, the values read are integers that never decrease and never
  exceed the larger of \<open>n\<close> and \<open>MAX_RELOADS\<close>; and a step in which the machine calls
  \<open>incrementReloadCount\<close> starts from a value strictly below \<open>MAX_RELOADS\<close> and leaves a
  value of at most \<open>MAX_RELOADS\<close>.
\<close>

theorem ledger_monotone_bounded:
  assumes "ledger p = Num n" "0 \<le> n"
  shows "\<exists>a b c. ledger (run evs p) = Num a \<and> ledger (step ev (run evs p)) = Num b
           \<and> ledger (run evs' (step ev (run evs p))) = Num c
           \<and> n \<le> a \<and> a \<le> b \<and> b \<le> c \<and> c \<le> max n MAX_RELOADS
           \<and> ((\<exists>j v. Increment j v \<in> set (new_actions (run evs p) (step ev (run evs p))))
                \<longrightarrow> a < MAX_RELOADS \<and> b \<le> MAX_RELOADS)"
proof -
  let ?q = "run evs p" and ?r = "step ev (run evs p)"
  from ledger_grows_run [of p evs] assms obtain a where
    a: "ledger ?q = Num a" "n \<le> a" "a \<le> max n MAX_RELOADS"
    unfolding ledger_grows_def by blast
  from ledger_grows_run [of ?q "[ev]"] a assms obtain b where
    b: "ledger ?r = Num b" "a \<le> b" "b \<le> max a MAX_RELOADS"
    unfolding ledger_grows_def run_single by force
  from ledger_grows_run [of ?r evs'] b a assms obtain c where
    c: "ledger (run evs' ?r) = Num c" "b \<le> c" "c \<le> max b MAX_RELOADS"
    unfolding ledger_grows_def by force
  have inc: "(\<exists>j v. Increment j v \<in> set (new_actions ?q ?r))
       \<longrightarrow> a < MAX_RELOADS \<and> b \<le> MAX_RELOADS"
  proof (intro impI, elim exE)
    fix j v
    assume "Increment j v \<in> set (new_actions ?q ?r)"
    from step_increment_guard [OF this] a have "a < MAX_RELOADS"
      by simp
    with b show "a < MAX_RELOADS \<and> b \<le> MAX_RELOADS"
      by simp
  qed
  from a b c inc show ?thesis
    by (auto simp add: MAX_RELOADS_def)
qed

theorem ledger_monotone_bounded_witness:
  "ledger (fresh empty_storage) = Num 0
   \<and> Increment 0 (Num 1)
       \<in> set (new_actions (run (watch_run empty_doc) (fresh empty_storage))
               (step (7150, Interval 0) (run (watch_run empty_doc) (fresh empty_storage))))
   \<and> ledger (run (watch_run empty_doc) (fresh empty_storage)) = Num 0
   \<and> ledger (step (7150, Interval 0) (run (watch_run empty_doc) (fresh empty_storage))) = Num 1
   \<and> (0 :: int) < MAX_RELOADS \<and> (1 :: int) \<le> MAX_RELOADS"
proof -
  let ?q = "run (watch_run empty_doc) (fresh empty_storage)"
  have h: "ledger (fresh empty_storage) = Num 0"
    by (simp add: ledger_def fresh_def empty_storage_count)
  have i: "Increment 0 (Num 1) \<in> set (new_actions ?q (step (7150, Interval 0) ?q))"
    by (simp only: watch_run_empty)
       (simp add: new_actions_def machine_defs empty_doc_facts empty_storage_count storage_1)
  have q: "ledger ?q = Num 0"
    by (simp add: watch_run_empty ledger_def empty_storage_count)
  have r: "ledger (step (7150, Interval 0) ?q) = Num 1"
    by (simp only: watch_run_empty)
       (simp add: ledger_def machine_defs empty_doc_facts empty_storage_count storage_1)
  from ledger_monotone_bounded [OF h, of "watch_run empty_doc" "(7150, Interval 0)" "[]"] i q r
  have "(0 :: int) < MAX_RELOADS \<and> (1 :: int) \<le> MAX_RELOADS"
    by auto
  with h i q r show ?thesis
    by blast
qed

section \<open>The resolution latch\<close>

text \<open>
  Claim C4, as the code has it. Take the step in which the latch of an instance is set.
  It is an interval tick of the instance or a change of the document that its observer
  sees. In that step the observer is disconnected and the instance activates exactly
  once; the polling channel clears its own timer, the reactive channel leaves the timer
  as it is; no one-shot timer is cancelled, so the watchdog stays pending. After that
  step, along every run: the latch stays set, the observer stays disconnected, the timer
  is not set again, and the instance takes no further action (no reload, no backoff, no
  increment, no second activation). A tick of the instance that is due clears the
  timer, and the watchdog callback changes nothing.
\<close>

theorem latch_set_is_final:
  assumes "i < length (insts p)" "\<not> resolved (insts p ! i)" "resolved (insts (step ev p) ! i)"
  shows "\<not> observing (insts (step ev p) ! i)
     \<and> ((\<exists>t. ev = (t, Interval i)) \<and> \<not> timer_on (insts (step ev p) ! i)
         \<or> (\<exists>t s. ev = (t, Change s True))
            \<and> timer_on (insts (step ev p) ! i) = timer_on (insts p ! i))
     \<and> timeouts (step ev p) = timeouts p
     \<and> (\<exists>org el. acts_of i (new_actions p (step ev p)) = [Activate org el])
     \<and> resolved (insts (run evs (step ev p)) ! i)
     \<and> \<not> observing (insts (run evs (step ev p)) ! i)
     \<and> (timer_on (insts (run evs (step ev p)) ! i) \<longrightarrow> timer_on (insts (step ev p) ! i))
     \<and> acts_of i (new_actions (step ev p) (run evs (step ev p))) = []
     \<and> (now (run evs (step ev p)) \<le> t \<and> next_tick (insts (run evs (step ev p)) ! i) \<le> t
          \<longrightarrow> \<not> timer_on (insts (step (t, Interval i) (run evs (step ev p))) ! i))
     \<and> watchdog_callback i (run evs (step ev p)) = run evs (step ev p)"
proof -
  let ?q = "step ev p" and ?r = "run evs (step ev p)"
  note s = latch_step [OF assms]
  then have iq: "i < length (insts ?q)" and oq: "\<not> observing (insts ?q ! i)"
    by simp_all
  from latched_run [of i ?q evs] iq assms(3)
  have l: "i < length (insts ?r)" "resolved (insts ?r ! i)"
    "timer_on (insts ?r ! i) \<longrightarrow> timer_on (insts ?q ! i)"
    "observing (insts ?r ! i) \<longrightarrow> observing (insts ?q ! i)"
    and "\<exists>new. trace ?r = trace ?q @ new \<and> acts_of i new = []"
    unfolding latched_def by simp_all
  then have n: "acts_of i (new_actions ?q ?r) = []"
    by (auto simp add: new_actions_def)
  have t: "now ?r \<le> t \<and> next_tick (insts ?r ! i) \<le> t
      \<longrightarrow> \<not> timer_on (insts (step (t, Interval i) ?r) ! i)"
    using resolved_tick [OF l(1) l(2)] by blast
  have w: "watchdog_callback i ?r = ?r"
    using l(2) by (rule resolved_watchdog)
  from s l oq n t w show ?thesis
    by simp
qed

theorem latch_set_is_final_witness:
  "0 < length (insts (run short_watch (fresh empty_storage)))
   \<and> \<not> resolved (insts (run short_watch (fresh empty_storage)) ! 0)
   \<and> resolved (insts (step (1700, Change ready_doc True)
                        (run short_watch (fresh empty_storage))) ! 0)
   \<and> resolved (insts (run [(2150, Interval 0), (30150, Timeout 1)]
                        (step (1700, Change ready_doc True)
                           (run short_watch (fresh empty_storage)))) ! 0)
   \<and> acts_of 0 (new_actions
                  (step (1700, Change ready_doc True) (run short_watch (fresh empty_storage)))
                  (run [(2150, Interval 0), (30150, Timeout 1)]
                     (step (1700, Change ready_doc True)
                        (run short_watch (fresh empty_storage))))) = []"
proof -
  let ?p = "run short_watch (fresh empty_storage)"
  have a: "0 < length (insts ?p)" and b: "\<not> resolved (insts ?p ! 0)"
    by (simp_all add: short_watch_state)
  have c: "resolved (insts (step (1700, Change ready_doc True) ?p) ! 0)"
    by (simp only: short_watch_state) (simp add: machine_defs ready_doc_facts)
  from latch_set_is_final [OF a b c, of "[(2150, Interval 0), (30150, Timeout 1)]" 30200] a b c
  show ?thesis
    by blast
qed

text \<open>
  Counterexample to claim C4 as stated. In \<open>seen_by_observer\<close> the reactive channel has
  set the latch: the interval timer is still set and the watchdog is still pending. In
  \<open>seen_by_poll\<close> the polling channel has set the latch: the watchdog is still pending.
  The source has no \<open>clearTimeout\<close>.
\<close>

theorem latch_leaves_timer_and_watchdog_counterexample:
  "resolved (insts seen_by_observer ! 0) \<and> timer_on (insts seen_by_observer ! 0)
   \<and> callback (timeouts seen_by_observer ! 1) = Watchdog 0
   \<and> pending (timeouts seen_by_observer ! 1)
   \<and> resolved (insts seen_by_poll ! 0)
   \<and> callback (timeouts seen_by_poll ! 1) = Watchdog 0
   \<and> pending (timeouts seen_by_poll ! 1)"
  by (simp add: seen_by_observer_state seen_by_poll_state)

section \<open>The watchdog\<close>

text \<open>
  Claim C5, as the code has it. Every call of \<open>startAutoDl\<close> that goes past the quick
  check creates one instance and, with it, one watchdog of its own, due
  \<open>OBSERVER_TIMEOUT_MS\<close> later; in every state reached from a fresh session the
  watchdogs are exactly one for each instance. When the watchdog of an instance fires
  and the latch of that instance is unset, it disconnects the observer and clears the
  interval timer of that instance and changes nothing else: the other instances, the
  other one-shot timers (a pending backoff re-entry among them), the storage and the
  trace are as before. From then on that instance has neither timer nor observer and
  takes no action.
\<close>

theorem watchdog_stops_its_own_instance:
  "one_watchdog_each (run evs (fresh st))
   \<and> (length (insts (startAutoDl p)) \<noteq> length (insts p) \<longrightarrow>
        insts (startAutoDl p) = insts p @
          [\<lparr>resolved = False, observing = observable (doc p), timer_on = True,
            next_tick = now p + POLL_INTERVAL_MS, elapsed = 0\<rparr>]
        \<and> timeouts (startAutoDl p) = timeouts p @
          [\<lparr>due = now p + OBSERVER_TIMEOUT_MS, callback = Watchdog (length (insts p)),
            pending = True\<rparr>])
   \<and> (k < length (timeouts p) \<and> pending (timeouts p ! k) \<and> due (timeouts p ! k) \<le> t
        \<and> now p \<le> t \<and> callback (timeouts p ! k) = Watchdog i
        \<and> i < length (insts p) \<and> \<not> resolved (insts p ! i) \<longrightarrow>
        step (t, Timeout k) p =
          p\<lparr>now := t,
            insts := (insts p)[i := (insts p ! i)\<lparr>observing := False, timer_on := False\<rparr>],
            timeouts := (timeouts p)[k := (timeouts p ! k)\<lparr>pending := False\<rparr>]\<rparr>
        \<and> \<not> observing (insts (run evs' (step (t, Timeout k) p)) ! i)
        \<and> \<not> timer_on (insts (run evs' (step (t, Timeout k) p)) ! i)
        \<and> acts_of i (new_actions (step (t, Timeout k) p)
                       (run evs' (step (t, Timeout k) p))) = [])"
proof (intro conjI impI)
  have "one_watchdog_each (fresh st)"
    by (simp add: one_watchdog_each_def fresh_def)
  with keeps_watchdogs_run [of "fresh st" evs] show "one_watchdog_each (run evs (fresh st))"
    by (simp add: keeps_watchdogs_def)
next
  assume "length (insts (startAutoDl p)) \<noteq> length (insts p)"
  then show "insts (startAutoDl p) = insts p @
          [\<lparr>resolved = False, observing = observable (doc p), timer_on = True,
            next_tick = now p + POLL_INTERVAL_MS, elapsed = 0\<rparr>]"
    and "timeouts (startAutoDl p) = timeouts p @
          [\<lparr>due = now p + OBSERVER_TIMEOUT_MS, callback = Watchdog (length (insts p)),
            pending = True\<rparr>]"
    by (auto simp add: startAutoDl_def split: sum.splits option.splits)
next
  let ?q = "step (t, Timeout k) p"
  assume h: "k < length (timeouts p) \<and> pending (timeouts p ! k) \<and> due (timeouts p ! k) \<le> t
        \<and> now p \<le> t \<and> callback (timeouts p ! k) = Watchdog i
        \<and> i < length (insts p) \<and> \<not> resolved (insts p ! i)"
  then show q: "?q =
          p\<lparr>now := t,
            insts := (insts p)[i := (insts p ! i)\<lparr>observing := False, timer_on := False\<rparr>],
            timeouts := (timeouts p)[k := (timeouts p ! k)\<lparr>pending := False\<rparr>]\<rparr>"
    by (simp add: watchdog_step)
  from h have "i < length (insts ?q) \<and> \<not> timer_on (insts ?q ! i) \<and> \<not> observing (insts ?q ! i)"
    by (simp add: q)
  with stopped_run [of i ?q evs']
  have s: "\<not> timer_on (insts (run evs' ?q) ! i)" "\<not> observing (insts (run evs' ?q) ! i)"
    "\<exists>new. trace (run evs' ?q) = trace ?q @ new \<and> acts_of i new = []"
    unfolding stopped_def by simp_all
  from s show "\<not> observing (insts (run evs' ?q) ! i)" "\<not> timer_on (insts (run evs' ?q) ! i)"
    by simp_all
  from s(3) show "acts_of i (new_actions ?q (run evs' ?q)) = []"
    by (auto simp add: new_actions_def)
qed

theorem watchdog_stops_its_own_instance_witness:
  "pending (timeouts (run (watch_run busy_doc) (fresh empty_storage)) ! 1)
   \<and> callback (timeouts (run (watch_run busy_doc) (fresh empty_storage)) ! 1) = Watchdog 0
   \<and> due (timeouts (run (watch_run busy_doc) (fresh empty_storage)) ! 1) \<le> 30150
   \<and> \<not> resolved (insts (run (watch_run busy_doc) (fresh empty_storage)) ! 0)
   \<and> timer_on (insts (run (watch_run busy_doc) (fresh empty_storage)) ! 0)
   \<and> \<not> timer_on (insts (run [(30650, Interval 0)]
         (step (30150, Timeout 1) (run (watch_run busy_doc) (fresh empty_storage)))) ! 0)
   \<and> length (insts (startAutoDl (run [(0, Load busy_doc)] (fresh empty_storage)))) \<noteq>
       length (insts (run [(0, Load busy_doc)] (fresh empty_storage)))
   \<and> timeouts (startAutoDl (run [(0, Load busy_doc)] (fresh empty_storage)))
       = [\<lparr>due = 150, callback = StartAutoDl, pending = True\<rparr>,
          \<lparr>due = 30000, callback = Watchdog 0, pending = True\<rparr>]
   \<and> one_watchdog_each busy_page"
proof -
  let ?p = "run (watch_run busy_doc) (fresh empty_storage)"
  let ?l = "run [(0, Load busy_doc)] (fresh empty_storage)"
  have h: "1 < length (timeouts ?p) \<and> pending (timeouts ?p ! 1) \<and> due (timeouts ?p ! 1) \<le> 30150
      \<and> now ?p \<le> 30150 \<and> callback (timeouts ?p ! 1) = Watchdog 0
      \<and> 0 < length (insts ?p) \<and> \<not> resolved (insts ?p ! 0)"
    and on: "timer_on (insts ?p ! 0)"
    by (simp_all add: watch_run_busy)
  have l: "?l = \<lparr>now = 0, doc = busy_doc, insts = [],
      timeouts = [\<lparr>due = 150, callback = StartAutoDl, pending = True\<rparr>],
      store = empty_storage, trace = []\<rparr>"
    by (simp add: machine_defs)
  have g: "length (insts (startAutoDl ?l)) \<noteq> length (insts ?l)"
    by (simp only: l) (simp add: machine_defs busy_doc_facts)
  note w = watchdog_stops_its_own_instance
    [of busy_run empty_storage ?p 1 30150 0 "[(30650, Interval 0)]"]
  from w have c: "one_watchdog_each busy_page"
    unfolding busy_page_def by (rule conjunct1)
  from w h have a: "\<not> timer_on (insts (run [(30650, Interval 0)]
      (step (30150, Timeout 1) ?p)) ! 0)"
    by blast
  from watchdog_stops_its_own_instance [of "[]" empty_storage ?l 0 0 0 "[]"] g
  have "timeouts (startAutoDl ?l) = timeouts ?l @
          [\<lparr>due = now ?l + OBSERVER_TIMEOUT_MS, callback = Watchdog (length (insts ?l)),
            pending = True\<rparr>]"
    by blast
  then have b: "timeouts (startAutoDl ?l)
       = [\<lparr>due = 150, callback = StartAutoDl, pending = True\<rparr>,
          \<lparr>due = 30000, callback = Watchdog 0, pending = True\<rparr>]"
    by (simp add: l OBSERVER_TIMEOUT_MS_def)
  from h on a g b c show ?thesis
    by simp
qed

text \<open>
  Counterexample to claim C5 as stated: \<open>busy_page\<close>, the page that has indicated busy
  for half a minute. Three watchdogs were started, one by each entry into
  \<open>startAutoDl\<close>. The watchdog of the first instance has fired at its deadline with no
  resolution; the interval timer and the observer of the third instance, created by the
  backoff re-entries, are active after it, and the other two watchdogs are pending.
\<close>

theorem watchdog_leaves_reentered_scanning_counterexample:
  "now busy_page = 30150
   \<and> map callback (timeouts busy_page)
       = [StartAutoDl, Watchdog 0, StartAutoDl, Watchdog 1, StartAutoDl, Watchdog 2]
   \<and> map due (timeouts busy_page) = [150, 30150, 14150, 44150, 28150, 58150]
   \<and> map pending (timeouts busy_page) = [False, False, False, True, False, True]
   \<and> map resolved (insts busy_page) = [False, False, False]
   \<and> timer_on (insts busy_page ! 2) \<and> observing (insts busy_page ! 2)"
  by (simp add: busy_page_state)

section \<open>Quiet runs\<close>

text \<open>
  Claim C1, as the code has it. Let the storage be available and writable and the ledger
  read a non-negative integer \<open>n\<close>, and let no surface of the run contain a qualifying
  control or indicate busy. Then the actions of the run are \<open>r\<close> reloads, each preceded
  by its one increment, which returns the next value, followed by \<open>g\<close> give-ups: one
  reload or give-up for each expiry of a watch window. Reloads happen only up to the
  ceiling, give-ups only from the ceiling on, and the ledger ends at \<open>n + r\<close>; after the
  first give-up there is no reload and no increment.
\<close>

theorem quiet_runs_reload_until_ceiling:
  assumes "available (store p)" "writable (store p)" "ledger p = Num n" "0 \<le> n"
    and "quiet (doc p)" "\<forall>ev\<in>set evs. quiet_event ev"
  shows "\<exists>r g. map shape_of (new_actions p (run evs p))
                 = reload_shapes n r @ replicate g (GaveUp (Num (n + int r)))
           \<and> r + g = expiries p evs
           \<and> ledger (run evs p) = Num (n + int r)
           \<and> (0 < r \<longrightarrow> n + int r \<le> MAX_RELOADS)
           \<and> (0 < g \<longrightarrow> MAX_RELOADS \<le> n + int r)"
  using quiet_run [OF assms(5) assms(6) assms(1) assms(2) assms(3)] .

theorem quiet_runs_reload_until_ceiling_witness:
  "available (store (fresh empty_storage)) \<and> writable (store (fresh empty_storage))
   \<and> ledger (fresh empty_storage) = Num 0 \<and> quiet (doc (fresh empty_storage))
   \<and> list_all quiet_event quiet_session
   \<and> map shape_of (new_actions (fresh empty_storage) (run quiet_session (fresh empty_storage)))
       = reload_shapes 0 3 @ replicate 1 (GaveUp (Num 3))
   \<and> (\<exists>r g. r + g = expiries (fresh empty_storage) quiet_session
          \<and> ledger (run quiet_session (fresh empty_storage)) = Num (0 + int r)
          \<and> map shape_of (new_actions (fresh empty_storage)
                 (run quiet_session (fresh empty_storage)))
               = reload_shapes 0 r @ replicate g (GaveUp (Num (0 + int r))))"
proof -
  have a: "available (store (fresh empty_storage)) \<and> writable (store (fresh empty_storage))"
    by (simp add: fresh_def empty_storage_def)
  have l: "ledger (fresh empty_storage) = Num 0"
    by (simp add: ledger_def fresh_def empty_storage_count)
  have q: "quiet (doc (fresh empty_storage))"
    by (simp add: fresh_def blank_doc_quiet)
  have e: "\<forall>ev\<in>set quiet_session. quiet_event ev"
    by (simp add: quiet_session_def empty_doc_quiet)
  have t: "map shape_of (new_actions (fresh empty_storage) (run quiet_session (fresh empty_storage)))
       = reload_shapes 0 3 @ replicate 1 (GaveUp (Num 3))"
    using quiet_session_trace by (simp add: new_actions_def fresh_def numeral_3_eq_3)
  from quiet_runs_reload_until_ceiling [OF conjunct1 [OF a] conjunct2 [OF a] l _ q e]
  have "\<exists>r g. r + g = expiries (fresh empty_storage) quiet_session
          \<and> ledger (run quiet_session (fresh empty_storage)) = Num (0 + int r)
          \<and> map shape_of (new_actions (fresh empty_storage)
                 (run quiet_session (fresh empty_storage)))
               = reload_shapes 0 r @ replicate g (GaveUp (Num (0 + int r)))"
    by blast
  with a l q e t show ?thesis
    by (simp add: list_all_iff)
qed

text \<open>
  Counterexample to claim C1 as stated: the storage is unavailable, the surface is quiet
  throughout and the first watch window expires. The machine reloads, and the ledger
  reads 0 before and after: \<open>incrementReloadCount\<close> has returned 0 without persisting,
  so the ceiling is never reached.
\<close>

theorem reload_without_ledger_increase_counterexample:
  "quiet empty_doc \<and> list_all quiet_event (expiry_run empty_doc)
   \<and> ledger (fresh no_storage) = Num 0
   \<and> trace (run (expiry_run empty_doc) (fresh no_storage)) = [Increment 0 (Num 0), Reload 0]
   \<and> ledger (run (expiry_run empty_doc) (fresh no_storage)) = Num 0
   \<and> store (run (expiry_run empty_doc) (fresh no_storage)) = no_storage"
  by (simp add: expiry_run_no_storage empty_doc_quiet ledger_def no_storage_count)
     (simp add: expiry_run_def watch_run_def empty_doc_quiet fresh_def no_storage_count)

end
